theory Spec2Isabelle
  imports Complex_Main "HOL-Library.Multiset" "HOL-Library.Monad_Syntax"
begin

section \<open>Numbers and strings of the host language\<close>

text \<open>
  The screen \<^verbatim>\<open>app/newgame.tsx\<close> keeps every amount as a string and turns it into a
  number with \<^verbatim>\<open>parseFloat\<close>. A number is modelled as an exact real or
  \<^verbatim>\<open>NaN\<close>: the binary rounding of the arithmetic on doubles, and overflow to an
  infinite value, are not represented. Strings are lists of code units below 256.
\<close>

datatype number = NaN | Num real

fun num_add :: "number \<Rightarrow> number \<Rightarrow> number" where
  "num_add (Num a) (Num b) = Num (a + b)"
| "num_add _ _ = NaN"

fun num_sub :: "number \<Rightarrow> number \<Rightarrow> number" where
  "num_sub (Num a) (Num b) = Num (a - b)"
| "num_sub _ _ = NaN"

text \<open>Comparisons with \<^verbatim>\<open>NaN\<close> are false, also \<^verbatim>\<open>===\<close>.\<close>

fun num_gt :: "number \<Rightarrow> number \<Rightarrow> bool" where
  "num_gt (Num a) (Num b) = (a > b)"
| "num_gt _ _ = False"

fun num_lt :: "number \<Rightarrow> number \<Rightarrow> bool" where
  "num_lt (Num a) (Num b) = (a < b)"
| "num_lt _ _ = False"

fun strict_eq :: "number \<Rightarrow> number \<Rightarrow> bool" where
  "strict_eq (Num a) (Num b) = (a = b)"
| "strict_eq _ _ = False"

fun Math_abs :: "number \<Rightarrow> number" where
  "Math_abs (Num a) = Num \<bar>a\<bar>"
| "Math_abs NaN = NaN"

fun Math_min :: "number \<Rightarrow> number \<Rightarrow> number" where
  "Math_min (Num a) (Num b) = Num (min a b)"
| "Math_min _ _ = NaN"

text \<open>\<^verbatim>\<open>x || 0\<close>: \<^verbatim>\<open>NaN\<close> and zero are falsy, every other number is kept.\<close>

fun or_zero :: "number \<Rightarrow> number" where
  "or_zero (Num a) = Num a"
| "or_zero NaN = Num 0"

text \<open>
  \<^verbatim>\<open>Number(x.toFixed(2))\<close>: the multiple of 0.01 nearest to \<open>x\<close>, the larger one
  on a tie.
\<close>

definition round2 :: "real \<Rightarrow> real" where
  "round2 x = of_int \<lfloor>x * 100 + 1 / 2\<rfloor> / 100"

fun toFixed2 :: "number \<Rightarrow> number" where
  "toFixed2 (Num a) = Num (round2 a)"
| "toFixed2 NaN = NaN"

subsection \<open>Strings\<close>

text \<open>
  White space of the language among the code units below 256: TAB, LF, VT, FF, CR,
  SP and NBSP.
\<close>

definition isWhiteSpace :: "char \<Rightarrow> bool" where
  "isWhiteSpace c = (of_char c \<in> {9, 10, 11, 12, 13, 32, 160 :: nat})"

definition trimStart :: "string \<Rightarrow> string" where
  "trimStart s = dropWhile isWhiteSpace s"

definition trim :: "string \<Rightarrow> string" where
  "trim s = rev (dropWhile isWhiteSpace (rev (dropWhile isWhiteSpace s)))"

text \<open>
  Lower case of one code unit: A to Z, and the upper-case letters of Latin-1 (192 to 222
  without the multiplication sign 215), move up by 32.
\<close>

definition lowerChar :: "char \<Rightarrow> char" where
  "lowerChar c =
     (let n = (of_char c :: nat) in
      if (65 \<le> n \<and> n \<le> 90) \<or> (192 \<le> n \<and> n \<le> 222 \<and> n \<noteq> 215)
      then char_of (n + 32) else c)"

definition toLowerCase :: "string \<Rightarrow> string" where
  "toLowerCase s = map lowerChar s"

subsection \<open>parseFloat\<close>

definition isDigit :: "char \<Rightarrow> bool" where
  "isDigit c = (48 \<le> (of_char c :: nat) \<and> (of_char c :: nat) \<le> 57)"

definition digitVal :: "char \<Rightarrow> nat" where
  "digitVal c = of_char c - 48"

definition digitsVal :: "string \<Rightarrow> nat" where
  "digitsVal ds = foldl (\<lambda>acc c. acc * 10 + digitVal c) 0 ds"

text \<open>
  The exponent part \<^verbatim>\<open>e\<close>, an optional sign and at least one digit; a lone
  \<^verbatim>\<open>e\<close> is not part of the number.
\<close>

definition exponentPart :: "string \<Rightarrow> int" where
  "exponentPart s =
     (case s of
        [] \<Rightarrow> 0
      | c # r \<Rightarrow>
          if c = CHR ''e'' \<or> c = CHR ''E'' then
            (case r of
               [] \<Rightarrow> 0
             | d # r' \<Rightarrow>
                 if d = CHR ''-'' then - int (digitsVal (takeWhile isDigit r'))
                 else if d = CHR ''+'' then int (digitsVal (takeWhile isDigit r'))
                 else int (digitsVal (takeWhile isDigit r)))
          else 0)"

definition pow10 :: "int \<Rightarrow> real" where
  "pow10 e = (if 0 \<le> e then 10 ^ nat e else 1 / 10 ^ nat (- e))"

text \<open>
  An unsigned decimal literal at the start of the string: digits, an optional fraction
  and an optional exponent; at least one digit before or after the point. The literal
  \<^verbatim>\<open>Infinity\<close> is not recognised: the model has no infinite number.
\<close>

definition parseUnsigned :: "string \<Rightarrow> real option" where
  "parseUnsigned s =
     (let ip = takeWhile isDigit s;
          r1 = dropWhile isDigit s;
          hasdot = (r1 \<noteq> [] \<and> hd r1 = CHR ''.'');
          fp = (if hasdot then takeWhile isDigit (tl r1) else []);
          r2 = (if hasdot then dropWhile isDigit (tl r1) else r1)
      in if ip = [] \<and> fp = [] then None
         else Some ((of_nat (digitsVal ip) + of_nat (digitsVal fp) / 10 ^ length fp)
                    * pow10 (exponentPart r2)))"

definition parseFloat :: "string \<Rightarrow> number" where
  "parseFloat s =
     (let t = trimStart s in
      case t of
        [] \<Rightarrow> NaN
      | c # r \<Rightarrow>
          if c = CHR ''-'' then (case parseUnsigned r of None \<Rightarrow> NaN | Some v \<Rightarrow> Num (- v))
          else if c = CHR ''+'' then (case parseUnsigned r of None \<Rightarrow> NaN | Some v \<Rightarrow> Num v)
          else (case parseUnsigned t of None \<Rightarrow> NaN | Some v \<Rightarrow> Num v))"

section \<open>The data of the screen\<close>

text \<open>
  \<^verbatim>\<open>interface Player { name: string; buyIn: string; cashOut: string }\<close>, the objects
  \<^verbatim>\<open>{ name, balance }\<close> of \<^verbatim>\<open>calculatePayments\<close>, and
  \<^verbatim>\<open>interface Payment { from: string; to: string; amount: number }\<close>. Both kinds of
  player object have the field \<^verbatim>\<open>name\<close>, so both records extend one with that field.
\<close>

record Named =
  name :: string

record Player = Named +
  buyIn :: string
  cashOut :: string

record PlayerBalance = Named +
  balance :: number

record Payment =
  from' :: string
  to' :: string
  amount :: number

record GameWithPayments =
  id' :: string
  date :: string
  players :: "Player list"
  payments :: "Payment list"

section \<open>Validation\<close>

text \<open>
  \<^verbatim>\<open>const names = players.map(player => player.name.toLowerCase().trim());
  return new Set(names).size !== names.length;\<close>
\<close>

definition hasDuplicateNames :: "Player list \<Rightarrow> bool" where
  "hasDuplicateNames ps =
     (let names = map (\<lambda>player. trim (toLowerCase (name player))) ps
      in card (set names) \<noteq> length names)"

text \<open>The two \<^verbatim>\<open>reduce\<close> calls of \<^verbatim>\<open>checkTotalBalance\<close>, from the left, starting at 0.\<close>

definition buyInTotal :: "Player list \<Rightarrow> number" where
  "buyInTotal ps = foldl (\<lambda>sum player. num_add sum (or_zero (parseFloat (buyIn player)))) (Num 0) ps"

definition cashOutTotal :: "Player list \<Rightarrow> number" where
  "cashOutTotal ps = foldl (\<lambda>sum player. num_add sum (or_zero (parseFloat (cashOut player)))) (Num 0) ps"

definition checkTotalBalance :: "Player list \<Rightarrow> bool" where
  "checkTotalBalance ps = strict_eq (toFixed2 (buyInTotal ps)) (toFixed2 (cashOutTotal ps))"

text \<open>The \<^verbatim>\<open>players.every(...)\<close> of \<^verbatim>\<open>saveGame\<close>.\<close>

definition isValid :: "Player list \<Rightarrow> bool" where
  "isValid ps =
     list_all (\<lambda>player. trim (name player) \<noteq> [] \<and> trim (buyIn player) \<noteq> [] \<and>
                         trim (cashOut player) \<noteq> []) ps"

section \<open>Settlement\<close>

text \<open>
  \<^verbatim>\<open>Array.prototype.sort\<close> with a comparison function: a stable sort; \<open>x\<close> goes
  after \<open>y\<close> when the comparison of \<open>x\<close> with \<open>y\<close> is positive.
\<close>

fun insort_cmp :: "('a \<Rightarrow> 'a \<Rightarrow> number) \<Rightarrow> 'a \<Rightarrow> 'a list \<Rightarrow> 'a list" where
  "insort_cmp c x [] = [x]"
| "insort_cmp c x (y # ys) =
     (if num_gt (c x y) (Num 0) then y # insort_cmp c x ys else x # y # ys)"

definition sort_cmp :: "('a \<Rightarrow> 'a \<Rightarrow> number) \<Rightarrow> 'a list \<Rightarrow> 'a list" where
  "sort_cmp c xs = foldr (insort_cmp c) xs []"

definition playerBalances :: "Player list \<Rightarrow> PlayerBalance list" where
  "playerBalances ps =
     map (\<lambda>player. \<lparr>name = name player,
                     balance = num_sub (parseFloat (cashOut player)) (parseFloat (buyIn player))\<rparr>) ps"

definition winners :: "Player list \<Rightarrow> PlayerBalance list" where
  "winners ps =
     sort_cmp (\<lambda>a b. num_sub (balance b) (balance a))
       (filter (\<lambda>p. num_gt (balance p) (Num 0)) (playerBalances ps))"

definition losers :: "Player list \<Rightarrow> PlayerBalance list" where
  "losers ps =
     sort_cmp (\<lambda>a b. num_sub (balance a) (balance b))
       (filter (\<lambda>p. num_lt (balance p) (Num 0)) (playerBalances ps))"

text \<open>
  The state the loops work on: the array \<^verbatim>\<open>winners\<close>, whose elements are replaced,
  and the array \<^verbatim>\<open>payments\<close>, which grows. \<open>consulted\<close> is a log, not a variable of
  the source: the index of every read \<^verbatim>\<open>winners[winnerIndex]\<close>, in order.
\<close>

record Settle =
  winnersArr :: "PlayerBalance list"
  paymentsArr :: "Payment list"
  consulted :: "nat list"

text \<open>
  \<^verbatim>\<open>while (remainingDebt > 0.01 && winnerIndex < winners.length) { ... winnerIndex++ }\<close>
  for the loser called \<open>loserName\<close>.
\<close>

function whileLoop :: "string \<Rightarrow> number \<Rightarrow> nat \<Rightarrow> Settle \<Rightarrow> Settle" where
  "whileLoop loserName remainingDebt winnerIndex st =
     (if num_gt remainingDebt (Num 0.01) \<and> winnerIndex < length (winnersArr st) then
        (let winner = winnersArr st ! winnerIndex;
             payment = Math_min remainingDebt (balance winner);
             st1 = st\<lparr>consulted := consulted st @ [winnerIndex]\<rparr>
         in if num_gt payment (Num 0) then
              whileLoop loserName (num_sub remainingDebt payment) (winnerIndex + 1)
                (st1\<lparr>paymentsArr := paymentsArr st1 @
                        [\<lparr>from' = loserName, to' = name winner, amount = toFixed2 payment\<rparr>],
                      winnersArr := (winnersArr st1)
                        [winnerIndex := winner\<lparr>balance := num_sub (balance winner) payment\<rparr>]\<rparr>)
            else whileLoop loserName remainingDebt (winnerIndex + 1) st1)
      else st)"
  by pat_completeness auto
termination
  by (relation "measure (\<lambda>(n, r, i, st). length (winnersArr st) - i)") auto

declare whileLoop.simps [simp del]

text \<open>\<^verbatim>\<open>losers.forEach(loser => { let remainingDebt = Math.abs(loser.balance); let winnerIndex = 0; ... })\<close>\<close>

fun forEachLoser :: "PlayerBalance list \<Rightarrow> Settle \<Rightarrow> Settle" where
  "forEachLoser [] st = st"
| "forEachLoser (loser # rest) st =
     forEachLoser rest (whileLoop (name loser) (Math_abs (balance loser)) 0 st)"

definition settle :: "Player list \<Rightarrow> Settle" where
  "settle ps = forEachLoser (losers ps) \<lparr>winnersArr = winners ps, paymentsArr = [], consulted = []\<rparr>"

definition calculatePayments :: "Player list \<Rightarrow> Payment list" where
  "calculatePayments ps = paymentsArr (settle ps)"

section \<open>Saving a game\<close>

text \<open>
  \<^verbatim>\<open>saveGame\<close> reads and writes the key \<^verbatim>\<open>pokerGames\<close> of the device's storage and
  changes the state of the screen. The model returns what it does, in order. What the
  storage answers is an input: \<^verbatim>\<open>getItem\<close> (with \<^verbatim>\<open>JSON.parse\<close>) throws, finds
  nothing, or yields the stored games; \<^verbatim>\<open>setItem\<close> succeeds or throws. \<open>Computed\<close>
  marks the call of \<^verbatim>\<open>calculatePayments\<close> and carries its result.
\<close>

datatype storage_read = ReadThrows | NoItem | Item "GameWithPayments list"

datatype effect =
    SetShowDuplicateModal bool
  | SetShowBalanceModal bool
  | SetTotalBuyIn number
  | SetTotalCashOut number
  | Alert string string
  | Computed "Payment list"
  | SetItem string "GameWithPayments list"
  | RouterPush string

definition saveGame ::
  "Player list \<Rightarrow> string \<Rightarrow> string \<Rightarrow> storage_read \<Rightarrow> bool \<Rightarrow> effect list" where
  "saveGame ps dateISO now stored setItemOk =
     (if hasDuplicateNames ps then [SetShowDuplicateModal True]
      else if \<not> isValid ps then [Alert ''Error'' ''Please fill in all player information'']
      else [SetTotalBuyIn (buyInTotal ps), SetTotalCashOut (cashOutTotal ps)] @
        (if \<not> checkTotalBalance ps then [SetShowBalanceModal True]
         else
           (case stored of
              ReadThrows \<Rightarrow> [Alert ''Error'' ''Failed to save game'']
            | _ \<Rightarrow>
              (let existingGames = (case stored of Item gs \<Rightarrow> gs | _ \<Rightarrow> []);
                   payments = calculatePayments ps;
                   newGame = \<lparr>id' = now, date = dateISO, players = ps, payments = payments\<rparr>;
                   updatedGames = existingGames @ [newGame]
               in Computed payments #
                  (if setItemOk then [SetItem ''pokerGames'' updatedGames, RouterPush ''/'']
                   else [Alert ''Error'' ''Failed to save game''])))))"

text \<open>The three checks of \<^verbatim>\<open>saveGame\<close> that come before the settlement.\<close>

definition validated :: "Player list \<Rightarrow> bool" where
  "validated ps = (\<not> hasDuplicateNames ps \<and> isValid ps \<and> checkTotalBalance ps)"

section \<open>The settlement on a store of objects\<close>

text \<open>
  A second model of \<^verbatim>\<open>calculatePayments\<close>, for what it changes: objects and arrays
  live in a store and are known by their addresses, so that two arrays can hold the same
  object. The store is a list, an address is an index into it, and a new object goes to
  the end. A read of a missing object or of an object of another kind gives \<open>None\<close>.
\<close>

datatype obj =
    PlayerObj Player
  | BalanceObj PlayerBalance
  | PaymentObj Payment
  | ArrayObj "nat list"

type_synonym heap = "obj list"

definition lookup :: "heap \<Rightarrow> nat \<Rightarrow> obj option" where
  "lookup h a = (if a < length h then Some (h ! a) else None)"

definition getPlayer :: "heap \<Rightarrow> nat \<Rightarrow> Player option" where
  "getPlayer h a = (case lookup h a of Some (PlayerObj p) \<Rightarrow> Some p | _ \<Rightarrow> None)"

definition getBalance :: "heap \<Rightarrow> nat \<Rightarrow> PlayerBalance option" where
  "getBalance h a = (case lookup h a of Some (BalanceObj b) \<Rightarrow> Some b | _ \<Rightarrow> None)"

definition getPayment :: "heap \<Rightarrow> nat \<Rightarrow> Payment option" where
  "getPayment h a = (case lookup h a of Some (PaymentObj t) \<Rightarrow> Some t | _ \<Rightarrow> None)"

definition getArray :: "heap \<Rightarrow> nat \<Rightarrow> nat list option" where
  "getArray h a = (case lookup h a of Some (ArrayObj xs) \<Rightarrow> Some xs | _ \<Rightarrow> None)"

text \<open>The objects at a list of addresses, when all of them can be read.\<close>

fun readAll :: "(nat \<Rightarrow> 'a option) \<Rightarrow> nat list \<Rightarrow> 'a list option" where
  "readAll g [] = Some []"
| "readAll g (a # as) = do { x \<leftarrow> g a; xs \<leftarrow> readAll g as; Some (x # xs) }"

text \<open>
  \<^verbatim>\<open>players.map(player => ({ name: player.name, balance: ... }))\<close>: one new object for
  each player; the addresses of the new objects and the new store.
\<close>

fun mapBalances :: "heap \<Rightarrow> nat list \<Rightarrow> (nat list \<times> heap) option" where
  "mapBalances h [] = Some ([], h)"
| "mapBalances h (a # as) = do {
     player \<leftarrow> getPlayer h a;
     let b = length h;
     let h1 = h @ [BalanceObj \<lparr>name = name player,
                 balance = num_sub (parseFloat (cashOut player)) (parseFloat (buyIn player))\<rparr>];
     (bs, h2) \<leftarrow> mapBalances h1 as;
     Some (b # bs, h2) }"

text \<open>
  \<^verbatim>\<open>filter\<close> makes a new array that holds the addresses it keeps: the same objects.
  \<^verbatim>\<open>sort\<close> reorders the array it is called on, in place.
\<close>

definition filter_h :: "(PlayerBalance \<Rightarrow> bool) \<Rightarrow> heap \<Rightarrow> nat \<Rightarrow> (nat \<times> heap) option" where
  "filter_h P h arr = do {
     as \<leftarrow> getArray h arr;
     bs \<leftarrow> readAll (getBalance h) as;
     let kept = map fst (filter (\<lambda>(a, b). P b) (zip as bs));
     Some (length h, h @ [ArrayObj kept]) }"

definition sort_h :: "(PlayerBalance \<Rightarrow> PlayerBalance \<Rightarrow> number) \<Rightarrow> heap \<Rightarrow> nat \<Rightarrow> heap option" where
  "sort_h c h arr = do {
     as \<leftarrow> getArray h arr;
     bs \<leftarrow> readAll (getBalance h) as;
     let sorted = map fst (sort_cmp (\<lambda>x y. c (snd x) (snd y)) (zip as bs));
     Some (h[arr := ArrayObj sorted]) }"

text \<open>
  The loop, on the store: \<^verbatim>\<open>payments.push({...})\<close> makes a new object and writes the
  array \<^verbatim>\<open>payments\<close>; \<^verbatim>\<open>winners[winnerIndex] = {...winner, balance: ...}\<close> makes a
  new object and writes one element of the array \<^verbatim>\<open>winners\<close>.
\<close>

partial_function (option) whileLoop_h ::
  "string \<Rightarrow> number \<Rightarrow> nat \<Rightarrow> nat \<Rightarrow> nat \<Rightarrow> heap \<Rightarrow> heap option" where
  "whileLoop_h loserName remainingDebt winnerIndex winnersRef paymentsRef h = do {
     ws \<leftarrow> getArray h winnersRef;
     if num_gt remainingDebt (Num 0.01) \<and> winnerIndex < length ws then do {
       winner \<leftarrow> getBalance h (ws ! winnerIndex);
       let payment = Math_min remainingDebt (balance winner);
       if num_gt payment (Num 0) then do {
         let h1 = h @ [PaymentObj \<lparr>from' = loserName, to' = name winner, amount = toFixed2 payment\<rparr>];
         ps \<leftarrow> getArray h1 paymentsRef;
         let h2 = h1[paymentsRef := ArrayObj (ps @ [length h])];
         let h3 = h2 @ [BalanceObj (winner\<lparr>balance := num_sub (balance winner) payment\<rparr>)];
         ws3 \<leftarrow> getArray h3 winnersRef;
         let h4 = h3[winnersRef := ArrayObj (ws3[winnerIndex := length h2])];
         whileLoop_h loserName (num_sub remainingDebt payment) (winnerIndex + 1) winnersRef paymentsRef h4
       } else whileLoop_h loserName remainingDebt (winnerIndex + 1) winnersRef paymentsRef h
     } else Some h }"

declare whileLoop_h.simps [code]

text \<open>
  \<^verbatim>\<open>losers.forEach(...)\<close>, over the addresses the array \<^verbatim>\<open>losers\<close> holds when
  the loop starts; the loop writes the arrays \<^verbatim>\<open>winners\<close> and \<^verbatim>\<open>payments\<close> only.
\<close>

fun forEachLoser_h :: "nat list \<Rightarrow> nat \<Rightarrow> nat \<Rightarrow> heap \<Rightarrow> heap option" where
  "forEachLoser_h [] winnersRef paymentsRef h = Some h"
| "forEachLoser_h (l # ls) winnersRef paymentsRef h = do {
     loser \<leftarrow> getBalance h l;
     h1 \<leftarrow> whileLoop_h (name loser) (Math_abs (balance loser)) 0 winnersRef paymentsRef h;
     forEachLoser_h ls winnersRef paymentsRef h1 }"

text \<open>
  \<^verbatim>\<open>calculatePayments\<close> on the store, from the address of the array \<^verbatim>\<open>players\<close>:
  the address of the array \<^verbatim>\<open>payments\<close> it returns, and the store it leaves.
\<close>

definition calculatePayments_h :: "heap \<Rightarrow> nat \<Rightarrow> (nat \<times> heap) option" where
  "calculatePayments_h h playersRef = do {
     as \<leftarrow> getArray h playersRef;
     (bs, h1) \<leftarrow> mapBalances h as;
     let playerBalancesRef = length h1;
     let h2 = h1 @ [ArrayObj bs];
     (winnersRef, h3) \<leftarrow> filter_h (\<lambda>p. num_gt (balance p) (Num 0)) h2 playerBalancesRef;
     h4 \<leftarrow> sort_h (\<lambda>a b. num_sub (balance b) (balance a)) h3 winnersRef;
     (losersRef, h5) \<leftarrow> filter_h (\<lambda>p. num_lt (balance p) (Num 0)) h4 playerBalancesRef;
     h6 \<leftarrow> sort_h (\<lambda>a b. num_sub (balance a) (balance b)) h5 losersRef;
     let paymentsRef = length h6;
     let h7 = h6 @ [ArrayObj []];
     ls \<leftarrow> getArray h7 losersRef;
     h8 \<leftarrow> forEachLoser_h ls winnersRef paymentsRef h7;
     Some (paymentsRef, h8) }"

text \<open>What an array of the store holds, read through its addresses.\<close>

definition readPlayers :: "heap \<Rightarrow> nat \<Rightarrow> Player list option" where
  "readPlayers h r = do { as \<leftarrow> getArray h r; readAll (getPlayer h) as }"

definition readPayments :: "heap \<Rightarrow> nat \<Rightarrow> Payment list option" where
  "readPayments h r = do { as \<leftarrow> getArray h r; readAll (getPayment h) as }"

definition readBalances :: "heap \<Rightarrow> nat \<Rightarrow> PlayerBalance list option" where
  "readBalances h r = do { as \<leftarrow> getArray h r; readAll (getBalance h) as }"

text \<open>
  \<open>frame h h' W\<close>: the store \<open>h'\<close> has every object of \<open>h\<close>, unchanged, at every
  address outside \<open>W\<close>.
\<close>

definition frame :: "heap \<Rightarrow> heap \<Rightarrow> nat set \<Rightarrow> bool" where
  "frame h h' W = (length h \<le> length h' \<and> (\<forall>a<length h. a \<notin> W \<longrightarrow> h' ! a = h ! a))"

text \<open>The two arrays of the loops hold what the state of the first model holds.\<close>

definition repr :: "heap \<Rightarrow> nat \<Rightarrow> nat \<Rightarrow> Settle \<Rightarrow> bool" where
  "repr h wa pa st \<longleftrightarrow>
     wa \<noteq> pa \<and> readBalances h wa = Some (winnersArr st) \<and>
     readPayments h pa = Some (paymentsArr st)"

section \<open>Notions used in the statements\<close>

text \<open>The net balance of a player, as \<^verbatim>\<open>calculatePayments\<close> computes it.\<close>

definition netBalance :: "Player \<Rightarrow> number" where
  "netBalance p = num_sub (parseFloat (cashOut p)) (parseFloat (buyIn p))"


text \<open>
  The body of \<^verbatim>\<open>if (payment > 0) { ... }\<close> in the loop, with the log entry of the
  read before it: one payment is pushed and one element of \<^verbatim>\<open>winners\<close> is replaced.
\<close>

definition payStep :: "string \<Rightarrow> number \<Rightarrow> nat \<Rightarrow> Settle \<Rightarrow> Settle" where
  "payStep n r i st =
     st\<lparr>consulted := consulted st @ [i],
        paymentsArr := paymentsArr st @
          [\<lparr>from' = n, to' = name (winnersArr st ! i),
            amount = toFixed2 (Math_min r (balance (winnersArr st ! i)))\<rparr>],
        winnersArr := (winnersArr st)
          [i := (winnersArr st ! i)\<lparr>balance :=
             num_sub (balance (winnersArr st ! i)) (Math_min r (balance (winnersArr st ! i)))\<rparr>]\<rparr>"















section \<open>Rounding, strings and totals\<close>


lemma isWhiteSpace_lowerChar: "isWhiteSpace (lowerChar c) = isWhiteSpace c"
proof -
  define n where "n = (of_char c :: nat)"
  have n: "n < 256" by (simp add: n_def)
  show ?thesis
  proof (cases "(65 \<le> n \<and> n \<le> 90) \<or> (192 \<le> n \<and> n \<le> 222 \<and> n \<noteq> 215)")
    case True
    then have l: "lowerChar c = char_of (n + 32)" by (simp add: lowerChar_def n_def Let_def)
    from True have "(n + 32) mod 256 = n + 32" by auto
    then have "(of_char (char_of (n + 32)) :: nat) = n + 32" by (simp add: of_char_of)
    with True show ?thesis unfolding isWhiteSpace_def l n_def[symmetric] by auto
  next
    case False
    then have "lowerChar c = c" unfolding lowerChar_def Let_def n_def by meson
    then show ?thesis by simp
  qed
qed


lemma trim_toLowerCase: "trim (toLowerCase s) = toLowerCase (trim s)"
  by (simp add: trim_def toLowerCase_def dropWhile_map rev_map comp_def isWhiteSpace_lowerChar)

lemma hasDuplicateNames_distinct:
  "hasDuplicateNames ps \<longleftrightarrow> \<not> distinct (map (\<lambda>p. toLowerCase (trim (name p))) ps)"
proof -
  let ?names = "map (\<lambda>p. trim (toLowerCase (name p))) ps"
  have "card (set ?names) = length ?names \<longleftrightarrow> distinct ?names"
    using card_distinct distinct_card by blast
  then show ?thesis
    unfolding hasDuplicateNames_def Let_def trim_toLowerCase by simp
qed


lemma playerBalances_netBalance:
  "playerBalances ps = map (\<lambda>p. \<lparr>name = name p, balance = netBalance p\<rparr>) ps"
  by (simp add: playerBalances_def netBalance_def)





section \<open>The loop over the winners\<close>

lemma whileLoop_stop:
  "\<not> (num_gt r (Num 0.01) \<and> i < length (winnersArr st)) \<Longrightarrow> whileLoop n r i st = st"
  by (subst whileLoop.simps) (rule if_not_P)

lemma whileLoop_pay:
  "num_gt r (Num 0.01) \<Longrightarrow> i < length (winnersArr st) \<Longrightarrow>
   num_gt (Math_min r (balance (winnersArr st ! i))) (Num 0) \<Longrightarrow>
   whileLoop n r i st =
     whileLoop n (num_sub r (Math_min r (balance (winnersArr st ! i)))) (i + 1) (payStep n r i st)"
  by (subst whileLoop.simps) (simp add: Let_def payStep_def)

lemma whileLoop_skip:
  "num_gt r (Num 0.01) \<Longrightarrow> i < length (winnersArr st) \<Longrightarrow>
   \<not> num_gt (Math_min r (balance (winnersArr st ! i))) (Num 0) \<Longrightarrow>
   whileLoop n r i st = whileLoop n r (i + 1) (st\<lparr>consulted := consulted st @ [i]\<rparr>)"
  by (subst whileLoop.simps) (simp add: Let_def)

lemma whileLoop_cases [case_names stop pay skip]:
  assumes "\<And>r i st. \<not> (num_gt r (Num 0.01) \<and> i < length (winnersArr st)) \<Longrightarrow> Q r i st"
    and "\<And>r i st. num_gt r (Num 0.01) \<Longrightarrow> i < length (winnersArr st) \<Longrightarrow>
           num_gt (Math_min r (balance (winnersArr st ! i))) (Num 0) \<Longrightarrow>
           Q (num_sub r (Math_min r (balance (winnersArr st ! i)))) (i + 1) (payStep n r i st) \<Longrightarrow>
           Q r i st"
    and "\<And>r i st. num_gt r (Num 0.01) \<Longrightarrow> i < length (winnersArr st) \<Longrightarrow>
           \<not> num_gt (Math_min r (balance (winnersArr st ! i))) (Num 0) \<Longrightarrow>
           Q r (i + 1) (st\<lparr>consulted := consulted st @ [i]\<rparr>) \<Longrightarrow> Q r i st"
  shows "Q r i st"
proof (induction "length (winnersArr st) - i" arbitrary: r i st rule: less_induct)
  case less
  show ?case
  proof (cases "num_gt r (Num 0.01) \<and> i < length (winnersArr st)")
    case False
    then show ?thesis by (rule assms(1))
  next
    case True
    then have c: "num_gt r (Num 0.01)" "i < length (winnersArr st)" by simp_all
    show ?thesis
    proof (cases "num_gt (Math_min r (balance (winnersArr st ! i))) (Num 0)")
      case True
      have "length (winnersArr (payStep n r i st)) - (i + 1) < length (winnersArr st) - i"
        using c by (simp add: payStep_def)
      from less[OF this] c True show ?thesis by (rule assms(2)[rotated 3])
    next
      case False
      have "length (winnersArr (st\<lparr>consulted := consulted st @ [i]\<rparr>)) - (i + 1) < length (winnersArr st) - i"
        using c by simp
      from less[OF this] c False show ?thesis by (rule assms(3)[rotated 3])
    qed
  qed
qed

lemma payStep_names: "map name (winnersArr (payStep n r i st)) = map name (winnersArr st)"
proof (cases "i < length (winnersArr st)")
  case True
  then have "name (winnersArr st ! i) = map name (winnersArr st) ! i" by simp
  then show ?thesis by (simp add: payStep_def map_update del: nth_map)
next
  case False
  then have "length (winnersArr st) \<le> i" by simp
  then show ?thesis by (simp add: payStep_def list_update_beyond)
qed

lemma whileLoop_names: "map name (winnersArr (whileLoop n r i st)) = map name (winnersArr st)"
proof (induction r i st rule: whileLoop_cases[where n = n])
  case (stop r i st)
  then show ?case by (simp add: whileLoop_stop)
next
  case (pay r i st)
  then show ?case by (simp add: whileLoop_pay payStep_names)
next
  case (skip r i st)
  then show ?case by (simp add: whileLoop_skip)
qed


lemma whileLoop_length: "length (winnersArr (whileLoop n r i st)) = length (winnersArr st)"
  using whileLoop_names [of n r i st] by (metis length_map)

lemma whileLoop_payments:
  "\<exists>new. paymentsArr (whileLoop n r i st) = paymentsArr st @ new \<and>
         (\<forall>t\<in>set new. from' t = n \<and> to' t \<in> set (map name (winnersArr st)))"
proof (induction r i st rule: whileLoop_cases[where n = n])
  case (stop r i st)
  then show ?case by (simp add: whileLoop_stop)
next
  case (pay r i st)
  then obtain new where new: "paymentsArr (whileLoop n r i st) = paymentsArr (payStep n r i st) @ new"
    "\<forall>t\<in>set new. from' t = n \<and> to' t \<in> set (map name (winnersArr st))"
    by (auto simp: whileLoop_pay payStep_names)
  let ?t = "\<lparr>from' = n, to' = name (winnersArr st ! i),
            amount = toFixed2 (Math_min r (balance (winnersArr st ! i)))\<rparr>"
  have "paymentsArr (whileLoop n r i st) = paymentsArr st @ (?t # new)"
    using new(1) by (simp add: payStep_def)
  moreover have "\<forall>t\<in>set (?t # new). from' t = n \<and> to' t \<in> set (map name (winnersArr st))"
    using new(2) pay.hyps(2) by simp
  ultimately show ?case by blast
next
  case (skip r i st)
  then show ?case by (simp add: whileLoop_skip)
qed

lemma whileLoop_consulted:
  "\<exists>k. consulted (whileLoop n r i st) = consulted st @ [i..<k] \<and> i \<le> k \<and>
       k \<le> max i (length (winnersArr st))"
proof (induction r i st rule: whileLoop_cases[where n = n])
  case (stop r i st)
  have "consulted (whileLoop n r i st) = consulted st @ [i..<i]"
    using stop by (simp add: whileLoop_stop)
  then show ?case by (intro exI[of _ i]) simp
next
  case (pay r i st)
  then obtain k where k: "consulted (whileLoop n r i st) = consulted (payStep n r i st) @ [i + 1..<k]"
    "i + 1 \<le> k" "k \<le> max (i + 1) (length (winnersArr st))"
    by (auto simp: whileLoop_pay payStep_def)
  from k(2) have "[i..<k] = i # [i + 1..<k]" by (simp add: upt_conv_Cons)
  with k have "consulted (whileLoop n r i st) = consulted st @ [i..<k]"
    by (simp add: payStep_def)
  with k pay.hyps(2) show ?case by (intro exI[of _ k]) simp
next
  case (skip r i st)
  then obtain k where k: "consulted (whileLoop n r i st) = (consulted st @ [i]) @ [i + 1..<k]"
    "i + 1 \<le> k" "k \<le> max (i + 1) (length (winnersArr st))"
    by (auto simp: whileLoop_skip)
  from k(2) have "[i..<k] = i # [i + 1..<k]" by (simp add: upt_conv_Cons)
  with k have "consulted (whileLoop n r i st) = consulted st @ [i..<k]" by simp
  with k skip.hyps(2) show ?case by (intro exI[of _ k]) simp
qed

section \<open>Sorting and the loop over the losers\<close>

lemma mset_insort_cmp: "mset (insort_cmp c x xs) = add_mset x (mset xs)"
  by (induction xs) simp_all

lemma mset_sort_cmp: "mset (sort_cmp c xs) = mset xs"
  by (induction xs) (simp_all add: sort_cmp_def mset_insort_cmp)

lemma set_sort_cmp: "set (sort_cmp c xs) = set xs"
  using mset_sort_cmp [of c xs] by (metis set_mset_mset)

lemma set_winners:
  "set (winners ps) = {\<lparr>name = name p, balance = netBalance p\<rparr> | p. p \<in> set ps \<and> num_gt (netBalance p) (Num 0)}"
  by (auto simp: winners_def set_sort_cmp playerBalances_netBalance)

lemma set_losers:
  "set (losers ps) = {\<lparr>name = name p, balance = netBalance p\<rparr> | p. p \<in> set ps \<and> num_lt (netBalance p) (Num 0)}"
  by (auto simp: losers_def set_sort_cmp playerBalances_netBalance)

lemma forEachLoser_names:
  "map name (winnersArr (forEachLoser ls st)) = map name (winnersArr st)"
  by (induction ls arbitrary: st) (simp_all add: whileLoop_names)

lemma forEachLoser_payments:
  "\<exists>new. paymentsArr (forEachLoser ls st) = paymentsArr st @ new \<and>
         (\<forall>t\<in>set new. from' t \<in> set (map name ls) \<and> to' t \<in> set (map name (winnersArr st)))"
proof (induction ls arbitrary: st)
  case Nil
  then show ?case by simp
next
  case (Cons l ls)
  let ?st1 = "whileLoop (name l) (Math_abs (balance l)) 0 st"
  obtain new1 where new1: "paymentsArr ?st1 = paymentsArr st @ new1"
    "\<forall>t\<in>set new1. from' t = name l \<and> to' t \<in> set (map name (winnersArr st))"
    using whileLoop_payments by blast
  obtain new2 where new2: "paymentsArr (forEachLoser ls ?st1) = paymentsArr ?st1 @ new2"
    "\<forall>t\<in>set new2. from' t \<in> set (map name ls) \<and> to' t \<in> set (map name (winnersArr ?st1))"
    using Cons.IH by blast
  have "paymentsArr (forEachLoser (l # ls) st) = paymentsArr st @ (new1 @ new2)"
    using new1(1) new2(1) by simp
  moreover have "\<forall>t\<in>set (new1 @ new2). from' t \<in> set (map name (l # ls)) \<and>
      to' t \<in> set (map name (winnersArr st))"
    using new1(2) new2(2) by (auto simp: whileLoop_names)
  ultimately show ?case by blast
qed

lemma forEachLoser_consulted:
  "\<exists>ks. length ks = length ls \<and>
        consulted (forEachLoser ls st) = consulted st @ concat (map (\<lambda>k. [0..<k]) ks) \<and>
        (\<forall>k\<in>set ks. k \<le> length (winnersArr st))"
proof (induction ls arbitrary: st)
  case Nil
  then show ?case by simp
next
  case (Cons l ls)
  let ?st1 = "whileLoop (name l) (Math_abs (balance l)) 0 st"
  obtain k where k: "consulted ?st1 = consulted st @ [0..<k]" "k \<le> length (winnersArr st)"
    using whileLoop_consulted [of "name l" "Math_abs (balance l)" 0 st] by auto
  obtain ks where ks: "length ks = length ls"
    "consulted (forEachLoser ls ?st1) = consulted ?st1 @ concat (map (\<lambda>k. [0..<k]) ks)"
    "\<forall>k\<in>set ks. k \<le> length (winnersArr ?st1)"
    using Cons.IH by blast
  have "length (k # ks) = length (l # ls)" using ks(1) by simp
  moreover have "consulted (forEachLoser (l # ls) st) =
      consulted st @ concat (map (\<lambda>k. [0..<k]) (k # ks))"
    using k(1) ks(2) by simp
  moreover have "\<forall>k\<in>set (k # ks). k \<le> length (winnersArr st)"
    using k(2) ks(3) by (simp add: whileLoop_length)
  ultimately show ?case by blast
qed

section \<open>What the settlement conserves\<close>









































section \<open>The store\<close>

lemma lookup_append: "a < length h \<Longrightarrow> lookup (h @ e) a = lookup h a"
  by (simp add: lookup_def nth_append)

lemma lookup_new: "lookup (h @ [v]) (length h) = Some v"
  by (simp add: lookup_def)

lemma lookup_update: "lookup (h[b := v]) a = (if a = b \<and> b < length h then Some v else lookup h a)"
  by (auto simp: lookup_def)

lemma lookup_frame: "frame h h' W \<Longrightarrow> a < length h \<Longrightarrow> a \<notin> W \<Longrightarrow> lookup h' a = lookup h a"
  by (simp add: frame_def lookup_def)

lemma lookup_Some: "lookup h a = Some v \<Longrightarrow> a < length h \<and> h ! a = v"
  by (auto simp: lookup_def split: if_splits)

lemma getArray_Some: "getArray h a = Some xs \<longleftrightarrow> lookup h a = Some (ArrayObj xs)"
  by (auto simp: getArray_def split: option.splits obj.splits)

lemma getBalance_Some: "getBalance h a = Some b \<longleftrightarrow> lookup h a = Some (BalanceObj b)"
  by (auto simp: getBalance_def split: option.splits obj.splits)

lemma getPayment_Some: "getPayment h a = Some t \<longleftrightarrow> lookup h a = Some (PaymentObj t)"
  by (auto simp: getPayment_def split: option.splits obj.splits)

lemma getPlayer_Some: "getPlayer h a = Some p \<longleftrightarrow> lookup h a = Some (PlayerObj p)"
  by (auto simp: getPlayer_def split: option.splits obj.splits)

lemma frame_refl: "frame h h W"
  by (simp add: frame_def)

lemma frame_trans: "frame h h1 W \<Longrightarrow> frame h1 h2 W \<Longrightarrow> frame h h2 W"
  by (auto simp: frame_def)

lemma frame_append: "frame h (h @ e) W"
  by (simp add: frame_def nth_append)

lemma frame_update: "b \<in> W \<Longrightarrow> frame h (h[b := v]) W"
  unfolding frame_def by (metis length_list_update nth_list_update_neq order_refl)

lemma frame_mono: "frame h h' W \<Longrightarrow> W \<subseteq> W' \<Longrightarrow> frame h h' W'"
  by (auto simp: frame_def)

lemma frame_length: "frame h h' W \<Longrightarrow> length h \<le> length h'"
  by (simp add: frame_def)

text \<open>A heap that only grew, and changed only at addresses that did not exist before.\<close>

lemma frame_prefix:
  assumes "frame h h' W" "\<forall>a\<in>W. length h \<le> a"
  shows "take (length h) h' = h"
proof (rule nth_equalityI)
  show "length (take (length h) h') = length h" using assms(1) by (simp add: frame_def)
next
  fix i assume "i < length (take (length h) h')"
  then have i: "i < length h" by simp
  with assms(2) have "i \<notin> W" by auto
  with assms(1) i show "take (length h) h' ! i = h ! i" by (simp add: frame_def)
qed

lemma readAll_Some: "readAll g as = Some xs \<longleftrightarrow> map g as = map Some xs"
proof (induction as arbitrary: xs)
  case Nil
  then show ?case by auto
next
  case (Cons a as)
  show ?case
  proof (cases "g a")
    case None
    then show ?thesis by (cases xs) auto
  next
    case (Some x)
    show ?thesis
    proof (cases "readAll g as")
      case None
      with Some Cons [of "tl xs"] show ?thesis by (cases xs) auto
    next
      case (Some ys)
      with \<open>g a = Some x\<close> Cons [of ys] Cons [of "tl xs"] show ?thesis by (cases xs) auto
    qed
  qed
qed

lemma map_get_frame:
  assumes "map g as = map Some xs" "\<forall>a\<in>set as. g' a = g a"
  shows "map g' as = map Some xs"
proof -
  from assms(2) have "map g' as = map g as" by simp
  with assms(1) show ?thesis by simp
qed

lemma reprD:
  assumes "repr h wa pa st"
  obtains ws ps where "wa \<noteq> pa" "lookup h wa = Some (ArrayObj ws)" "lookup h pa = Some (ArrayObj ps)"
    "map (getBalance h) ws = map Some (winnersArr st)"
    "map (getPayment h) ps = map Some (paymentsArr st)"
proof -
  from assms obtain ws where ws: "getArray h wa = Some ws" "readAll (getBalance h) ws = Some (winnersArr st)"
    unfolding repr_def readBalances_def by (auto simp: bind_eq_Some_conv)
  from assms obtain ps where ps: "getArray h pa = Some ps" "readAll (getPayment h) ps = Some (paymentsArr st)"
    unfolding repr_def readPayments_def by (auto simp: bind_eq_Some_conv)
  from assms have "wa \<noteq> pa" unfolding repr_def by simp
  with ws ps that show ?thesis by (simp add: getArray_Some readAll_Some)
qed

lemma reprI:
  assumes "wa \<noteq> pa" "lookup h wa = Some (ArrayObj ws)" "lookup h pa = Some (ArrayObj ps)"
    "map (getBalance h) ws = map Some bs" "map (getPayment h) ps = map Some ts"
    "winnersArr st = bs" "paymentsArr st = ts"
  shows "repr h wa pa st"
  using assms unfolding repr_def readBalances_def readPayments_def
  by (simp add: getArray_Some [symmetric] readAll_Some [symmetric])

lemma repr_consulted: "repr h wa pa (st\<lparr>consulted := c\<rparr>) = repr h wa pa st"
  by (simp add: repr_def)

lemma whileLoop_h_stop:
  assumes "repr h wa pa st" "\<not> (num_gt r (Num 0.01) \<and> i < length (winnersArr st))"
  shows "whileLoop_h n r i wa pa h = Some h"
proof -
  from assms(1) obtain ws ps where ws: "lookup h wa = Some (ArrayObj ws)"
    and bs: "map (getBalance h) ws = map Some (winnersArr st)" by (rule reprD)
  from bs have "length ws = length (winnersArr st)" by (rule map_eq_imp_length_eq)
  with assms(2) have c: "\<not> (num_gt r (Num 0.01) \<and> i < length ws)" by simp
  have g: "getArray h wa = Some ws" using ws by (simp add: getArray_Some)
  show ?thesis
    apply (subst whileLoop_h.simps)
    using c by (auto simp: g)
qed

lemma whileLoop_h_skip:
  assumes "repr h wa pa st" "num_gt r (Num 0.01)" "i < length (winnersArr st)"
    "\<not> num_gt (Math_min r (balance (winnersArr st ! i))) (Num 0)"
  shows "whileLoop_h n r i wa pa h = whileLoop_h n r (i + 1) wa pa h"
proof -
  from assms(1) obtain ws ps where ws: "lookup h wa = Some (ArrayObj ws)"
    and bs: "map (getBalance h) ws = map Some (winnersArr st)" by (rule reprD)
  from bs have len: "length ws = length (winnersArr st)" by (rule map_eq_imp_length_eq)
  from bs have "map (getBalance h) ws ! i = map Some (winnersArr st) ! i" by simp
  with assms(3) len have w: "getBalance h (ws ! i) = Some (winnersArr st ! i)" by simp
  have g: "getArray h wa = Some ws" using ws by (simp add: getArray_Some)
  show ?thesis
    apply (subst whileLoop_h.simps)
    using assms(2,3,4) len by (simp add: g w Let_def)
qed


lemma whileLoop_h_pay:
  assumes r: "repr h wa pa st" and c: "num_gt r (Num 0.01)" "i < length (winnersArr st)"
    "num_gt (Math_min r (balance (winnersArr st ! i))) (Num 0)"
  shows "\<exists>h4. whileLoop_h n r i wa pa h =
            whileLoop_h n (num_sub r (Math_min r (balance (winnersArr st ! i)))) (i + 1) wa pa h4 \<and>
          repr h4 wa pa (payStep n r i st) \<and> frame h h4 {wa, pa}"
proof -
  from r obtain ws ps where ne: "wa \<noteq> pa"
    and ws: "lookup h wa = Some (ArrayObj ws)" and ps: "lookup h pa = Some (ArrayObj ps)"
    and bs: "map (getBalance h) ws = map Some (winnersArr st)"
    and ts: "map (getPayment h) ps = map Some (paymentsArr st)" by (rule reprD)
  let ?winner = "winnersArr st ! i"
  let ?payment = "Math_min r (balance ?winner)"
  let ?t = "\<lparr>from' = n, to' = name ?winner, amount = toFixed2 ?payment\<rparr>"
  let ?w' = "?winner\<lparr>balance := num_sub (balance ?winner) ?payment\<rparr>"
  define h1 where "h1 = h @ [PaymentObj ?t]"
  define h2 where "h2 = h1[pa := ArrayObj (ps @ [length h])]"
  define h3 where "h3 = h2 @ [BalanceObj ?w']"
  define h4 where "h4 = h3[wa := ArrayObj (ws[i := length h2])]"
  from ws ps have wl: "wa < length h" and pl: "pa < length h" by (auto dest: lookup_Some)
  from bs have len: "length ws = length (winnersArr st)" by (rule map_eq_imp_length_eq)
  from bs have "map (getBalance h) ws ! i = map Some (winnersArr st) ! i" by simp
  with c(2) len have w: "getBalance h (ws ! i) = Some ?winner" by simp
  have l2: "length h2 = Suc (length h)" by (simp add: h2_def h1_def)
  have g1: "getArray h wa = Some ws" using ws by (simp add: getArray_Some)
  have g2: "getArray h1 pa = Some ps"
    using ps pl by (simp add: getArray_Some h1_def lookup_append)
  have g3: "getArray h3 wa = Some ws"
    using ws wl ne by (simp add: getArray_Some h3_def h2_def h1_def lookup_append lookup_update)
  have step: "whileLoop_h n r i wa pa h =
      whileLoop_h n (num_sub r ?payment) (i + 1) wa pa h4"
    apply (subst whileLoop_h.simps)
    using c len
    by (simp add: g1 w Let_def g2 [unfolded h1_def] g3 [unfolded h3_def h2_def h1_def]
        h4_def h3_def h2_def h1_def)
  have f: "frame h h4 {wa, pa}"
  proof -
    have "frame h h1 {wa, pa}" unfolding h1_def by (rule frame_append)
    moreover have "frame h1 h2 {wa, pa}" unfolding h2_def by (rule frame_update) simp
    moreover have "frame h2 h3 {wa, pa}" unfolding h3_def by (rule frame_append)
    moreover have "frame h3 h4 {wa, pa}" unfolding h4_def by (rule frame_update) simp
    ultimately show ?thesis by (blast intro: frame_trans)
  qed
  have old: "lookup h4 a = lookup h a" if "a < length h" "a \<noteq> wa" "a \<noteq> pa" for a
    using f that by (intro lookup_frame) auto
  have lw: "lookup h4 wa = Some (ArrayObj (ws[i := length h2]))"
    using wl by (simp add: h4_def h3_def h2_def h1_def lookup_update)
  have lp: "lookup h4 pa = Some (ArrayObj (ps @ [length h]))"
    using pl ne by (simp add: h4_def h3_def h2_def h1_def lookup_update lookup_append)
  have newp: "lookup h4 (length h) = Some (PaymentObj ?t)"
    using wl pl by (simp add: h4_def h3_def h2_def h1_def lookup_update lookup_append lookup_new)
  have neww: "lookup h4 (length h2) = Some (BalanceObj ?w')"
  proof -
    from wl l2 have "length h2 \<noteq> wa" by simp
    then have "lookup h4 (length h2) = lookup h3 (length h2)"
      unfolding h4_def by (simp add: lookup_update)
    also have "\<dots> = Some (BalanceObj ?w')" unfolding h3_def by (rule lookup_new)
    finally show ?thesis .
  qed
  have oldb: "getBalance h4 a = getBalance h a" if "a \<in> set ws" for a
  proof -
    from that bs obtain b where "getBalance h a = Some b"
      by (metis (no_types, lifting) in_set_conv_nth len length_map nth_map)
    then have la: "lookup h a = Some (BalanceObj b)" by (simp add: getBalance_Some)
    with ws ps have "a < length h" "a \<noteq> wa" "a \<noteq> pa" by (auto dest: lookup_Some)
    then have "lookup h4 a = lookup h a" by (rule old)
    then show ?thesis by (simp add: getBalance_def)
  qed
  have oldt: "getPayment h4 a = getPayment h a" if "a \<in> set ps" for a
  proof -
    from ts have "length ps = length (paymentsArr st)" by (rule map_eq_imp_length_eq)
    with that ts obtain t where "getPayment h a = Some t"
      by (metis (no_types, lifting) in_set_conv_nth length_map nth_map)
    then have la: "lookup h a = Some (PaymentObj t)" by (simp add: getPayment_Some)
    with ws ps have "a < length h" "a \<noteq> wa" "a \<noteq> pa" by (auto dest: lookup_Some)
    then have "lookup h4 a = lookup h a" by (rule old)
    then show ?thesis by (simp add: getPayment_def)
  qed
  have b4: "map (getBalance h4) (ws[i := length h2]) = map Some ((winnersArr st)[i := ?w'])"
  proof -
    have "map (getBalance h4) ws = map Some (winnersArr st)"
      using bs by (rule map_get_frame) (simp add: oldb)
    moreover have "getBalance h4 (length h2) = Some ?w'" using neww by (simp add: getBalance_Some)
    ultimately show ?thesis by (simp add: map_update)
  qed
  have t4: "map (getPayment h4) (ps @ [length h]) = map Some (paymentsArr st @ [?t])"
  proof -
    have "map (getPayment h4) ps = map Some (paymentsArr st)"
      using ts by (rule map_get_frame) (simp add: oldt)
    moreover have "getPayment h4 (length h) = Some ?t" using newp by (simp add: getPayment_Some)
    ultimately show ?thesis by simp
  qed
  have "repr h4 wa pa (payStep n r i st)"
    using ne lw lp b4 t4 by (rule reprI) (simp_all add: payStep_def)
  with step f show ?thesis by blast
qed

lemma whileLoop_h_refines:
  "repr h wa pa st \<Longrightarrow>
   \<exists>h'. whileLoop_h n r i wa pa h = Some h' \<and> repr h' wa pa (whileLoop n r i st) \<and>
        frame h h' {wa, pa}"
proof (induction r i st arbitrary: h rule: whileLoop_cases[where n = n])
  case (stop r i st)
  then show ?case using frame_refl by (simp add: whileLoop_stop whileLoop_h_stop)
next
  case (pay r i st)
  from whileLoop_h_pay [OF pay.prems pay.hyps(1,2,3), of n]
  obtain h4 where h4: "whileLoop_h n r i wa pa h =
            whileLoop_h n (num_sub r (Math_min r (balance (winnersArr st ! i)))) (i + 1) wa pa h4"
    "repr h4 wa pa (payStep n r i st)" "frame h h4 {wa, pa}" by blast
  from pay.IH [OF h4(2)] obtain h' where h':
    "whileLoop_h n (num_sub r (Math_min r (balance (winnersArr st ! i)))) (i + 1) wa pa h4 = Some h'"
    "repr h' wa pa (whileLoop n (num_sub r (Math_min r (balance (winnersArr st ! i)))) (i + 1)
       (payStep n r i st))"
    "frame h4 h' {wa, pa}" by blast
  have "whileLoop_h n r i wa pa h = Some h'" using h4(1) h'(1) by simp
  moreover have "repr h' wa pa (whileLoop n r i st)"
    using h'(2) whileLoop_pay [OF pay.hyps(1,2,3), of n] by simp
  moreover have "frame h h' {wa, pa}" using h4(3) h'(3) by (rule frame_trans)
  ultimately show ?case by blast
next
  case (skip r i st)
  have "repr h wa pa (st\<lparr>consulted := consulted st @ [i]\<rparr>)"
    using skip.prems by (simp add: repr_consulted)
  from skip.IH [OF this] obtain h' where h':
    "whileLoop_h n r (i + 1) wa pa h = Some h'"
    "repr h' wa pa (whileLoop n r (i + 1) (st\<lparr>consulted := consulted st @ [i]\<rparr>))"
    "frame h h' {wa, pa}" by blast
  have "whileLoop_h n r i wa pa h = Some h'"
    using whileLoop_h_skip [OF skip.prems skip.hyps(1,2,3), of n] h'(1) by simp
  moreover have "repr h' wa pa (whileLoop n r i st)"
    using h'(2) whileLoop_skip [OF skip.hyps(1,2,3), of n] by simp
  ultimately show ?case using h'(3) by blast
qed

text \<open>An object that is not an array is not touched by writes to arrays.\<close>

lemma getBalance_frame:
  assumes "frame h h' W" "getBalance h a = Some b"
    and "\<forall>w\<in>W. length h \<le> w \<or> (\<exists>xs. lookup h w = Some (ArrayObj xs))"
  shows "getBalance h' a = Some b"
proof -
  from assms(2) have la: "lookup h a = Some (BalanceObj b)" by (simp add: getBalance_Some)
  then have "a < length h" by (auto dest: lookup_Some)
  moreover from la assms(3) \<open>a < length h\<close> have "a \<notin> W" by fastforce
  ultimately have "lookup h' a = lookup h a" using assms(1) by (intro lookup_frame)
  with la show ?thesis by (simp add: getBalance_Some)
qed

lemma map_getBalance_frame:
  assumes "frame h h' W" "map (getBalance h) as = map Some bs"
    and "\<forall>w\<in>W. length h \<le> w \<or> (\<exists>xs. lookup h w = Some (ArrayObj xs))"
  shows "map (getBalance h') as = map Some bs"
  using assms(2)
proof (rule map_get_frame)
  show "\<forall>a\<in>set as. getBalance h' a = getBalance h a"
  proof
    fix a assume a: "a \<in> set as"
    from assms(2) have "length as = length bs" by (rule map_eq_imp_length_eq)
    with a assms(2) obtain b where b: "getBalance h a = Some b"
      by (metis (no_types, lifting) in_set_conv_nth length_map nth_map)
    have "getBalance h' a = Some b" using assms(1) b assms(3) by (rule getBalance_frame)
    with b show "getBalance h' a = getBalance h a" by simp
  qed
qed

lemma repr_arrays:
  assumes "repr h wa pa st"
  shows "\<forall>w\<in>{wa, pa}. length h \<le> w \<or> (\<exists>xs. lookup h w = Some (ArrayObj xs))"
proof -
  from assms obtain ws ps where "lookup h wa = Some (ArrayObj ws)" "lookup h pa = Some (ArrayObj ps)"
    by (rule reprD)
  then show ?thesis by blast
qed

lemma forEachLoser_h_refines:
  "repr h wa pa st \<Longrightarrow> map (getBalance h) ls = map Some lbs \<Longrightarrow>
   \<exists>h'. forEachLoser_h ls wa pa h = Some h' \<and> repr h' wa pa (forEachLoser lbs st) \<and>
        frame h h' {wa, pa}"
proof (induction ls arbitrary: lbs h st)
  case Nil
  then show ?case using frame_refl by simp
next
  case (Cons l ls)
  from Cons.prems(2) obtain lb lbs' where lbs: "lbs = lb # lbs'"
    "getBalance h l = Some lb" "map (getBalance h) ls = map Some lbs'" by (cases lbs) auto
  let ?n = "name lb" and ?r = "Math_abs (balance lb)"
  from whileLoop_h_refines [OF Cons.prems(1), of ?n ?r 0] obtain h1 where h1:
    "whileLoop_h ?n ?r 0 wa pa h = Some h1" "repr h1 wa pa (whileLoop ?n ?r 0 st)"
    "frame h h1 {wa, pa}" by blast
  have "map (getBalance h1) ls = map Some lbs'"
    using h1(3) lbs(3) repr_arrays [OF Cons.prems(1)] by (rule map_getBalance_frame)
  from Cons.IH [OF h1(2) this] obtain h' where h':
    "forEachLoser_h ls wa pa h1 = Some h'"
    "repr h' wa pa (forEachLoser lbs' (whileLoop ?n ?r 0 st))" "frame h1 h' {wa, pa}" by blast
  have "forEachLoser_h (l # ls) wa pa h = Some h'" using lbs(2) h1(1) h'(1) by simp
  moreover have "repr h' wa pa (forEachLoser lbs st)" using h'(2) lbs(1) by simp
  moreover have "frame h h' {wa, pa}" using h1(3) h'(3) by (rule frame_trans)
  ultimately show ?case by blast
qed

lemma mapBalances_spec:
  "map (getPlayer h) as = map Some ps \<Longrightarrow>
   mapBalances h as =
     Some ([length h..<length h + length as], h @ map BalanceObj (playerBalances ps))"
proof (induction as arbitrary: h ps)
  case Nil
  then show ?case by (simp add: playerBalances_def)
next
  case (Cons a as)
  from Cons.prems obtain p ps' where ps: "ps = p # ps'" "getPlayer h a = Some p"
    "map (getPlayer h) as = map Some ps'" by (cases ps) auto
  let ?b = "\<lparr>name = name p,
              balance = num_sub (parseFloat (cashOut p)) (parseFloat (buyIn p))\<rparr>"
  let ?h1 = "h @ [BalanceObj ?b]"
  have "map (getPlayer ?h1) as = map Some ps'"
    using ps(3)
  proof (rule map_get_frame)
    show "\<forall>x\<in>set as. getPlayer ?h1 x = getPlayer h x"
    proof
      fix x assume x: "x \<in> set as"
      from ps(3) have "length as = length ps'" by (rule map_eq_imp_length_eq)
      with x ps(3) obtain q where "getPlayer h x = Some q"
        by (metis (no_types, lifting) in_set_conv_nth length_map nth_map)
      then have "x < length h" by (auto simp: getPlayer_Some dest: lookup_Some)
      then show "getPlayer ?h1 x = getPlayer h x" by (simp add: getPlayer_def lookup_append)
    qed
  qed
  from Cons.IH [OF this]
  have ih: "mapBalances ?h1 as =
      Some ([length ?h1..<length ?h1 + length as], ?h1 @ map BalanceObj (playerBalances ps'))" .
  have u: "[length h..<length h + length (a # as)] = length h # [length ?h1..<length ?h1 + length as]"
    by (subst upt_rec) simp
  have pb: "playerBalances ps = ?b # playerBalances ps'" by (simp add: ps(1) playerBalances_def)
  show ?case unfolding u pb using ps(2) ih by (simp add: Let_def)
qed

lemma in_zip_get:
  assumes "map g as = map Some xs" "(a, x) \<in> set (zip as xs)"
  shows "g a = Some x"
proof -
  from assms(2) obtain i where i: "i < length as" "i < length xs" "as ! i = a" "xs ! i = x"
    by (auto simp: in_set_zip)
  from assms(1) have "map g as ! i = map Some xs ! i" by simp
  with i show ?thesis by simp
qed

lemma map_fst_pairs:
  assumes "\<forall>(a, x)\<in>set ps. g a = Some x"
  shows "map g (map fst ps) = map Some (map snd ps)"
  using assms by (induction ps) auto

lemma filter_zip:
  assumes "length as = length xs"
  shows "map snd (filter (\<lambda>(a, b). P b) (zip as xs)) = filter P xs"
  using assms by (induction as xs rule: list_induct2) auto

lemma filter_h_spec:
  assumes "lookup h arr = Some (ArrayObj as)" "map (getBalance h) as = map Some xs"
  shows "\<exists>kept. filter_h P h arr = Some (length h, h @ [ArrayObj kept]) \<and>
           map (getBalance h) kept = map Some (filter P xs)"
proof -
  let ?kept = "map fst (filter (\<lambda>(a, b). P b) (zip as xs))"
  from assms(2) have len: "length as = length xs" by (rule map_eq_imp_length_eq)
  have "\<forall>(a, x)\<in>set (filter (\<lambda>(a, b). P b) (zip as xs)). getBalance h a = Some x"
    using in_zip_get [OF assms(2)] by auto
  then have "map (getBalance h) ?kept = map Some (map snd (filter (\<lambda>(a, b). P b) (zip as xs)))"
    by (rule map_fst_pairs)
  then have k: "map (getBalance h) ?kept = map Some (filter P xs)"
    by (simp only: filter_zip [OF len])
  have "filter_h P h arr = Some (length h, h @ [ArrayObj ?kept])"
    unfolding filter_h_def
    using assms by (simp add: getArray_Some [symmetric] readAll_Some [symmetric])
  with k show ?thesis by blast
qed

lemma map_insort_cmp:
  "map f (insort_cmp (\<lambda>x y. c (f x) (f y)) p ps) = insort_cmp c (f p) (map f ps)"
  by (induction ps) simp_all

lemma map_sort_cmp: "map f (sort_cmp (\<lambda>x y. c (f x) (f y)) ps) = sort_cmp c (map f ps)"
  by (induction ps) (simp_all add: sort_cmp_def map_insort_cmp)

lemma sort_h_spec:
  assumes "lookup h arr = Some (ArrayObj as)" "map (getBalance h) as = map Some xs"
  shows "\<exists>sorted. sort_h c h arr = Some (h[arr := ArrayObj sorted]) \<and>
           map (getBalance h) sorted = map Some (sort_cmp c xs)"
proof -
  let ?sp = "sort_cmp (\<lambda>x y. c (snd x) (snd y)) (zip as xs)"
  from assms(2) have len: "length as = length xs" by (rule map_eq_imp_length_eq)
  have "\<forall>(a, x)\<in>set ?sp. getBalance h a = Some x"
    using in_zip_get [OF assms(2)] by (auto simp: set_sort_cmp)
  then have "map (getBalance h) (map fst ?sp) = map Some (map snd ?sp)" by (rule map_fst_pairs)
  also have "map snd ?sp = sort_cmp c (map snd (zip as xs))" by (rule map_sort_cmp)
  also have "map snd (zip as xs) = xs" using len by simp
  finally have k: "map (getBalance h) (map fst ?sp) = map Some (sort_cmp c xs)" .
  have "sort_h c h arr = Some (h[arr := ArrayObj (map fst ?sp)])"
    unfolding sort_h_def
    using assms by (simp add: getArray_Some [symmetric] readAll_Some [symmetric])
  with k show ?thesis by blast
qed

lemma map_getBalance_new:
  "map (getBalance (h @ map BalanceObj bs)) [length h..<length h + length bs] = map Some bs"
proof (rule nth_equalityI)
  show "length (map (getBalance (h @ map BalanceObj bs)) [length h..<length h + length bs]) =
      length (map Some bs)" by simp
next
  fix i assume "i < length (map (getBalance (h @ map BalanceObj bs)) [length h..<length h + length bs])"
  then have i: "i < length bs" by simp
  then have "lookup (h @ map BalanceObj bs) (length h + i) = Some (BalanceObj (bs ! i))"
    by (simp add: lookup_def nth_append)
  with i show "map (getBalance (h @ map BalanceObj bs)) [length h..<length h + length bs] ! i =
      map Some bs ! i" by (simp add: getBalance_Some)
qed

lemma map_getBalance_append:
  "map (getBalance h) as = map Some bs \<Longrightarrow> map (getBalance (h @ e)) as = map Some bs"
  by (rule map_getBalance_frame [OF frame_append, where W = "{}"]) simp_all

lemma map_getBalance_update:
  assumes "map (getBalance h) as = map Some bs" "lookup h w = Some (ArrayObj xs)"
  shows "map (getBalance (h[w := v])) as = map Some bs"
proof (rule map_getBalance_frame [where W = "{w}"])
  show "frame h (h[w := v]) {w}" by (rule frame_update) simp
  show "map (getBalance h) as = map Some bs" by (rule assms(1))
  show "\<forall>w\<in>{w}. length h \<le> w \<or> (\<exists>xs. lookup h w = Some (ArrayObj xs))" using assms(2) by simp
qed

lemma calculatePayments_h_refines:
  assumes "readPlayers h playersRef = Some ps"
  shows "\<exists>paymentsRef h'. calculatePayments_h h playersRef = Some (paymentsRef, h') \<and>
           take (length h) h' = h \<and>
           readPayments h' paymentsRef = Some (calculatePayments ps)"
proof -
  let ?W = "{a. length h \<le> a}"
  let ?pbs = "playerBalances ps"
  from assms obtain as where as: "getArray h playersRef = Some as"
    "map (getPlayer h) as = map Some ps"
    unfolding readPlayers_def by (auto simp: bind_eq_Some_conv readAll_Some)
  from as(2) have las: "length as = length ps" by (rule map_eq_imp_length_eq)
  have lpb: "length ?pbs = length ps" by (simp add: playerBalances_def)
  \<comment> \<open>\<^verbatim>\<open>players.map(...)\<close>\<close>
  define bs where "bs = [length h..<length h + length as]"
  define h1 where "h1 = h @ map BalanceObj ?pbs"
  define h2 where "h2 = h1 @ [ArrayObj bs]"
  have m: "mapBalances h as = Some (bs, h1)"
    unfolding bs_def h1_def using as(2) by (rule mapBalances_spec)
  have b1: "map (getBalance h1) bs = map Some ?pbs"
    unfolding bs_def h1_def las lpb [symmetric] by (rule map_getBalance_new)
  have b2: "map (getBalance h2) bs = map Some ?pbs"
    unfolding h2_def using b1 by (rule map_getBalance_append)
  have l2: "lookup h2 (length h1) = Some (ArrayObj bs)" unfolding h2_def by (rule lookup_new)
  \<comment> \<open>\<^verbatim>\<open>const winners = playerBalances.filter(...).sort(...)\<close>\<close>
  obtain keptW where kw: "filter_h (\<lambda>p. num_gt (balance p) (Num 0)) h2 (length h1) =
      Some (length h2, h2 @ [ArrayObj keptW])"
    "map (getBalance h2) keptW = map Some (filter (\<lambda>p. num_gt (balance p) (Num 0)) ?pbs)"
    using filter_h_spec [OF l2 b2] by blast
  define h3 where "h3 = h2 @ [ArrayObj keptW]"
  have l3: "lookup h3 (length h2) = Some (ArrayObj keptW)" unfolding h3_def by (rule lookup_new)
  have k3: "map (getBalance h3) keptW = map Some (filter (\<lambda>p. num_gt (balance p) (Num 0)) ?pbs)"
    unfolding h3_def using kw(2) by (rule map_getBalance_append)
  obtain sortedW where sw: "sort_h (\<lambda>a b. num_sub (balance b) (balance a)) h3 (length h2) =
      Some (h3[length h2 := ArrayObj sortedW])"
    "map (getBalance h3) sortedW = map Some (winners ps)"
    unfolding winners_def using sort_h_spec [OF l3 k3] by blast
  define h4 where "h4 = h3[length h2 := ArrayObj sortedW]"
  have len3: "length h3 = Suc (length h2)" "length h2 = Suc (length h1)"
    by (simp_all add: h3_def h2_def)
  have l4w: "lookup h4 (length h2) = Some (ArrayObj sortedW)"
    unfolding h4_def by (simp add: lookup_update len3)
  have w4: "map (getBalance h4) sortedW = map Some (winners ps)"
    unfolding h4_def using sw(2) l3 by (rule map_getBalance_update)
  have l4: "lookup h4 (length h1) = Some (ArrayObj bs)"
    unfolding h4_def h3_def using l2 len3 by (simp add: lookup_update lookup_append)
  have b4: "map (getBalance h4) bs = map Some ?pbs"
  proof -
    have "map (getBalance h3) bs = map Some ?pbs"
      unfolding h3_def using b2 by (rule map_getBalance_append)
    then show ?thesis unfolding h4_def using l3 by (rule map_getBalance_update)
  qed
  \<comment> \<open>\<^verbatim>\<open>const losers = playerBalances.filter(...).sort(...)\<close>\<close>
  obtain keptL where kl: "filter_h (\<lambda>p. num_lt (balance p) (Num 0)) h4 (length h1) =
      Some (length h4, h4 @ [ArrayObj keptL])"
    "map (getBalance h4) keptL = map Some (filter (\<lambda>p. num_lt (balance p) (Num 0)) ?pbs)"
    using filter_h_spec [OF l4 b4] by blast
  define h5 where "h5 = h4 @ [ArrayObj keptL]"
  have l5: "lookup h5 (length h4) = Some (ArrayObj keptL)" unfolding h5_def by (rule lookup_new)
  have k5: "map (getBalance h5) keptL = map Some (filter (\<lambda>p. num_lt (balance p) (Num 0)) ?pbs)"
    unfolding h5_def using kl(2) by (rule map_getBalance_append)
  obtain sortedL where sl: "sort_h (\<lambda>a b. num_sub (balance a) (balance b)) h5 (length h4) =
      Some (h5[length h4 := ArrayObj sortedL])"
    "map (getBalance h5) sortedL = map Some (losers ps)"
    unfolding losers_def using sort_h_spec [OF l5 k5] by blast
  define h6 where "h6 = h5[length h4 := ArrayObj sortedL]"
  define h7 where "h7 = h6 @ [ArrayObj []]"
  have len: "length h4 = length h3" "length h5 = Suc (length h4)" "length h6 = length h5"
    by (simp_all add: h4_def h5_def h6_def)
  have l7l: "lookup h7 (length h4) = Some (ArrayObj sortedL)"
    unfolding h7_def h6_def using len by (simp add: lookup_append lookup_update)
  have l7w: "lookup h7 (length h2) = Some (ArrayObj sortedW)"
    unfolding h7_def h6_def h5_def using l4w len len3
    by (simp add: lookup_append lookup_update)
  have l7p: "lookup h7 (length h6) = Some (ArrayObj [])" unfolding h7_def by (rule lookup_new)
  have s7: "map (getBalance h7) sortedL = map Some (losers ps)"
  proof -
    have "map (getBalance h6) sortedL = map Some (losers ps)"
      unfolding h6_def using sl(2) l5 by (rule map_getBalance_update)
    then show ?thesis unfolding h7_def by (rule map_getBalance_append)
  qed
  have w7: "map (getBalance h7) sortedW = map Some (winners ps)"
  proof -
    have "map (getBalance h5) sortedW = map Some (winners ps)"
      unfolding h5_def using w4 by (rule map_getBalance_append)
    then have "map (getBalance h6) sortedW = map Some (winners ps)"
      unfolding h6_def using l5 by (rule map_getBalance_update)
    then show ?thesis unfolding h7_def by (rule map_getBalance_append)
  qed
  \<comment> \<open>\<^verbatim>\<open>losers.forEach(...)\<close>\<close>
  let ?st0 = "\<lparr>winnersArr = winners ps, paymentsArr = [], consulted = []\<rparr>"
  have ne: "length h2 \<noteq> length h6" using len len3 by simp
  have r7: "repr h7 (length h2) (length h6) ?st0"
    using ne l7w l7p w7 by (rule reprI) simp_all
  from forEachLoser_h_refines [OF r7 s7] obtain h8 where h8:
    "forEachLoser_h sortedL (length h2) (length h6) h7 = Some h8"
    "repr h8 (length h2) (length h6) (settle ps)"
    "frame h7 h8 {length h2, length h6}" unfolding settle_def by blast
  have run: "calculatePayments_h h playersRef = Some (length h6, h8)"
    unfolding calculatePayments_h_def
    using as(1) m kw(1) sw(1) kl(1) sl(1) l7l [folded getArray_Some] h8(1)
    by (simp add: Let_def h2_def [symmetric] h3_def [symmetric] h4_def [symmetric]
        h5_def [symmetric] h6_def [symmetric] h7_def [symmetric])
  \<comment> \<open>Nothing that existed before the call has changed.\<close>
  have lh: "length h \<le> length h1" "length h1 \<le> length h2" by (simp_all add: h1_def h2_def)
  have f7: "frame h h7 ?W"
  proof -
    have "frame h h1 ?W" unfolding h1_def by (rule frame_append)
    moreover have "frame h1 h2 ?W" unfolding h2_def by (rule frame_append)
    moreover have "frame h2 h3 ?W" unfolding h3_def by (rule frame_append)
    moreover have "frame h3 h4 ?W" unfolding h4_def using lh by (intro frame_update) simp
    moreover have "frame h4 h5 ?W" unfolding h5_def by (rule frame_append)
    moreover have "frame h5 h6 ?W" unfolding h6_def using lh len len3 by (intro frame_update) simp
    moreover have "frame h6 h7 ?W" unfolding h7_def by (rule frame_append)
    ultimately show ?thesis by (blast intro: frame_trans)
  qed
  have "{length h2, length h6} \<subseteq> ?W" using lh len len3 by auto
  with h8(3) have "frame h7 h8 ?W" by (rule frame_mono)
  with f7 have "frame h h8 ?W" by (rule frame_trans)
  then have pre: "take (length h) h8 = h" by (rule frame_prefix) simp
  have "readPayments h8 (length h6) = Some (calculatePayments ps)"
    using h8(2) by (simp add: repr_def calculatePayments_def)
  with run pre show ?thesis by blast
qed

lemma readPlayers_prefix:
  assumes "readPlayers h r = Some ps" "take (length h) h' = h"
  shows "readPlayers h' r = Some ps"
proof -
  have "length (take (length h) h') = length h" using assms(2) by simp
  then have le: "length h \<le> length h'" by simp
  have lk: "lookup h' a = lookup h a" if "a < length h" for a
  proof -
    have "h' ! a = take (length h) h' ! a" using that by simp
    with assms(2) that le show ?thesis by (simp add: lookup_def)
  qed
  from assms(1) obtain as where as: "getArray h r = Some as" "map (getPlayer h) as = map Some ps"
    unfolding readPlayers_def by (auto simp: bind_eq_Some_conv readAll_Some)
  from as(1) have "r < length h" by (auto simp: getArray_Some dest: lookup_Some)
  then have g: "getArray h' r = Some as" using as(1) by (simp add: getArray_def lk)
  have "map (getPlayer h') as = map Some ps"
    using as(2)
  proof (rule map_get_frame)
    show "\<forall>a\<in>set as. getPlayer h' a = getPlayer h a"
    proof
      fix a assume a: "a \<in> set as"
      from as(2) have "length as = length ps" by (rule map_eq_imp_length_eq)
      with a as(2) obtain q where "getPlayer h a = Some q"
        by (metis (no_types, lifting) in_set_conv_nth length_map nth_map)
      then have "a < length h" by (auto simp: getPlayer_Some dest: lookup_Some)
      then show "getPlayer h' a = getPlayer h a" by (simp add: getPlayer_def lk)
    qed
  qed
  with g show ?thesis unfolding readPlayers_def by (simp add: readAll_Some [symmetric])
qed

section \<open>The balance check\<close>



section \<open>Duplicate names\<close>

text \<open>
  C5. \<^verbatim>\<open>hasDuplicateNames\<close> reports a duplicate exactly when two entries have names
  that are equal after trimming white space and lower-casing; a list with the names
  \<^verbatim>\<open>Alice\<close> and \<^verbatim>\<open>alice \<close> has one; lower-casing and then trimming, as the code does,
  gives the same string as trimming and then lower-casing.
\<close>

theorem hasDuplicateNames_iff:
  "(hasDuplicateNames ps \<longleftrightarrow>
      (\<exists>i j. i < j \<and> j < length ps \<and>
         toLowerCase (trim (name (ps ! i))) = toLowerCase (trim (name (ps ! j))))) \<and>
   (p \<in> set ps \<and> q \<in> set ps \<and> name p = ''Alice'' \<and> name q = ''alice '' \<longrightarrow>
      hasDuplicateNames ps) \<and>
   trim (toLowerCase s) = toLowerCase (trim s)"
proof -
  let ?f = "\<lambda>p. toLowerCase (trim (name p))"
  have len: "length (map ?f ps) = length ps" by simp
  have iff: "hasDuplicateNames ps \<longleftrightarrow>
      (\<exists>i j. i < j \<and> j < length ps \<and> ?f (ps ! i) = ?f (ps ! j))"
  proof
    assume "hasDuplicateNames ps"
    then have "\<not> distinct (map ?f ps)" using hasDuplicateNames_distinct by blast
    then have "\<exists>i j. i < length ps \<and> j < length ps \<and> i \<noteq> j \<and> ?f (ps ! i) = ?f (ps ! j)"
      by (auto simp: distinct_conv_nth)
    then obtain i j where ij: "i < length ps" "j < length ps" "i \<noteq> j"
      and e: "?f (ps ! i) = ?f (ps ! j)" by blast
    show "\<exists>i j. i < j \<and> j < length ps \<and> ?f (ps ! i) = ?f (ps ! j)"
    proof (cases "i < j")
      case True
      with ij e show ?thesis by blast
    next
      case False
      with ij have "j < i" by simp
      with ij e show ?thesis by metis
    qed
  next
    assume "\<exists>i j. i < j \<and> j < length ps \<and> ?f (ps ! i) = ?f (ps ! j)"
    then obtain i j where ij: "i < j" "j < length ps" and e: "?f (ps ! i) = ?f (ps ! j)"
      by blast
    have "\<not> distinct (map ?f ps)"
    proof
      assume "distinct (map ?f ps)"
      then have "inj_on ?f (set ps)" "distinct ps" by (simp_all add: distinct_map)
      moreover from ij have "ps ! i \<in> set ps" "ps ! j \<in> set ps" by simp_all
      ultimately have "ps ! i = ps ! j" using e unfolding inj_on_def by blast
      with \<open>distinct ps\<close> ij show False by (simp add: nth_eq_iff_index_eq)
    qed
    then show "hasDuplicateNames ps" using hasDuplicateNames_distinct by blast
  qed
  have ex: "hasDuplicateNames ps"
    if "p \<in> set ps" "q \<in> set ps" "name p = ''Alice''" "name q = ''alice ''"
  proof -
    have "?f p = ''alice''" unfolding that(3) by code_simp
    moreover have "?f q = ''alice''" unfolding that(4) by code_simp
    moreover have "p \<noteq> q" using that(3,4) by auto
    ultimately have "\<not> inj_on ?f (set ps)" using that(1,2) unfolding inj_on_def by metis
    then have "\<not> distinct (map ?f ps)" by (simp add: distinct_map)
    then show ?thesis using hasDuplicateNames_distinct by blast
  qed
  from iff ex trim_toLowerCase show ?thesis by blast
qed

theorem hasDuplicateNames_iff_witness:
  "hasDuplicateNames [\<lparr>name = ''Alice'', buyIn = ''10'', cashOut = ''0''\<rparr>,
                      \<lparr>name = ''alice '', buyIn = ''0'', cashOut = ''10''\<rparr>]"
  by (rule hasDuplicateNames_iff
    [of _ "\<lparr>name = ''Alice'', buyIn = ''10'', cashOut = ''0''\<rparr>"
        "\<lparr>name = ''alice '', buyIn = ''0'', cashOut = ''10''\<rparr>" "[]",
     THEN conjunct2, THEN conjunct1, THEN mp]) simp

section \<open>Who pays whom\<close>

text \<open>
  C7. When no two entries have the same name, every transfer of \<^verbatim>\<open>calculatePayments\<close>
  goes from a player whose net balance (cash-out minus buy-in) is below 0 to a player whose
  net balance is above 0, and so never from a player to the same player.
\<close>

theorem payments_from_loser_to_winner:
  assumes "\<not> hasDuplicateNames ps" and "t \<in> set (calculatePayments ps)"
  shows "\<exists>p q. p \<in> set ps \<and> q \<in> set ps \<and> name p = from' t \<and> name q = to' t \<and>
           num_lt (netBalance p) (Num 0) \<and> num_gt (netBalance q) (Num 0) \<and> from' t \<noteq> to' t"
proof -
  obtain new where new: "calculatePayments ps = [] @ new"
    "\<forall>t\<in>set new. from' t \<in> set (map name (losers ps)) \<and> to' t \<in> set (map name (winners ps))"
    using forEachLoser_payments [of "losers ps" "\<lparr>winnersArr = winners ps, paymentsArr = [], consulted = []\<rparr>"]
    by (auto simp: calculatePayments_def settle_def)
  with assms(2) have "from' t \<in> name ` set (losers ps)" "to' t \<in> name ` set (winners ps)" by auto
  then obtain p q where p: "p \<in> set ps" "name p = from' t" "num_lt (netBalance p) (Num 0)"
    and q: "q \<in> set ps" "name q = to' t" "num_gt (netBalance q) (Num 0)"
    unfolding set_winners set_losers by auto
  have "distinct (map (\<lambda>p. toLowerCase (trim (name p))) ps)"
    using assms(1) hasDuplicateNames_distinct by blast
  then have "distinct (map (\<lambda>s. toLowerCase (trim s)) (map name ps))" by (simp add: comp_def)
  then have "distinct (map name ps)" using distinct_map by blast
  then have inj: "inj_on name (set ps)" by (simp add: distinct_map)
  have "from' t \<noteq> to' t"
  proof
    assume "from' t = to' t"
    with p q inj have "p = q" by (auto simp: inj_on_def)
    with p(3) q(3) show False by (cases "netBalance q") simp_all
  qed
  with p q show ?thesis by blast
qed


theorem payments_from_loser_to_winner_witness:
  "\<exists>p q. p \<in> set [\<lparr>name = ''A'', buyIn = ''50'', cashOut = ''100''\<rparr>,
                    \<lparr>name = ''B'', buyIn = ''100'', cashOut = ''50''\<rparr>] \<and>
         q \<in> set [\<lparr>name = ''A'', buyIn = ''50'', cashOut = ''100''\<rparr>,
                    \<lparr>name = ''B'', buyIn = ''100'', cashOut = ''50''\<rparr>] \<and>
         name p = from' \<lparr>from' = ''B'', to' = ''A'', amount = Num 50\<rparr> \<and>
         name q = to' \<lparr>from' = ''B'', to' = ''A'', amount = Num 50\<rparr> \<and>
         num_lt (netBalance p) (Num 0) \<and> num_gt (netBalance q) (Num 0) \<and>
         from' \<lparr>from' = ''B'', to' = ''A'', amount = Num 50\<rparr> \<noteq>
         to' \<lparr>from' = ''B'', to' = ''A'', amount = Num 50\<rparr>"
proof -
  let ?ps = "[\<lparr>name = ''A'', buyIn = ''50'', cashOut = ''100''\<rparr>,
              \<lparr>name = ''B'', buyIn = ''100'', cashOut = ''50''\<rparr>]"
  have "\<not> hasDuplicateNames ?ps" by code_simp
  moreover have "calculatePayments ?ps = [\<lparr>from' = ''B'', to' = ''A'', amount = Num 50\<rparr>]"
    by code_simp
  then have "\<lparr>from' = ''B'', to' = ''A'', amount = Num 50\<rparr> \<in> set (calculatePayments ?ps)"
    by simp
  ultimately show ?thesis by (rule payments_from_loser_to_winner)
qed

section \<open>Scenarios\<close>



section \<open>The checks of saveGame\<close>

text \<open>
  C3, as amended. The completeness check of \<^verbatim>\<open>saveGame\<close> fails whenever an entry has
  a name, a buy-in or a cash-out that is empty after trimming white space: the list is
  rejected, and the game is neither settled nor stored. The duplicate-name check comes
  first, so what the user sees is the alert about missing information unless the list also
  has duplicate names. The check does not parse the amounts.
\<close>

theorem blank_field_rejected:
  assumes "p \<in> set ps"
    and "trim (name p) = [] \<or> trim (buyIn p) = [] \<or> trim (cashOut p) = []"
  shows "\<not> isValid ps \<and>
     (saveGame ps dateISO now stored setItemOk = [SetShowDuplicateModal True] \<or>
      saveGame ps dateISO now stored setItemOk =
        [Alert ''Error'' ''Please fill in all player information'']) \<and>
     (\<not> hasDuplicateNames ps \<longrightarrow>
        saveGame ps dateISO now stored setItemOk =
          [Alert ''Error'' ''Please fill in all player information''])"
proof -
  from assms have "\<not> isValid ps" unfolding isValid_def list_all_iff by blast
  then show ?thesis by (simp add: saveGame_def)
qed

theorem blank_field_rejected_witness:
  "\<not> isValid [\<lparr>name = ''A'', buyIn = ''  '', cashOut = ''5''\<rparr>,
              \<lparr>name = ''B'', buyIn = ''5'', cashOut = ''0''\<rparr>] \<and>
   saveGame [\<lparr>name = ''A'', buyIn = ''  '', cashOut = ''5''\<rparr>,
             \<lparr>name = ''B'', buyIn = ''5'', cashOut = ''0''\<rparr>] ''2024-01-01'' ''1'' NoItem True =
     [Alert ''Error'' ''Please fill in all player information'']"
proof -
  let ?p = "\<lparr>name = ''A'', buyIn = ''  '', cashOut = ''5''\<rparr>"
  let ?ps = "[?p, \<lparr>name = ''B'', buyIn = ''5'', cashOut = ''0''\<rparr>]"
  have "?p \<in> set ?ps" by simp
  moreover have "trim (name ?p) = [] \<or> trim (buyIn ?p) = [] \<or> trim (cashOut ?p) = []"
    by code_simp
  moreover have "\<not> hasDuplicateNames ?ps" by code_simp
  ultimately show ?thesis
    using blank_field_rejected [of ?p ?ps "''2024-01-01''" "''1''" NoItem True] by blast
qed

text \<open>
  An amount that is not empty and not numeric passes the completeness check; the balance
  check counts it as 0 (\<open>or_zero_parseFloat\<close>), and the game is settled and stored.
\<close>

theorem non_numeric_amount_counterexample:
  "trim ''abc'' \<noteq> [] \<and> parseFloat ''abc'' = NaN \<and>
   isValid [\<lparr>name = ''A'', buyIn = ''abc'', cashOut = ''abc''\<rparr>,
            \<lparr>name = ''B'', buyIn = ''10'', cashOut = ''10''\<rparr>] \<and>
   saveGame [\<lparr>name = ''A'', buyIn = ''abc'', cashOut = ''abc''\<rparr>,
             \<lparr>name = ''B'', buyIn = ''10'', cashOut = ''10''\<rparr>] ''2024-01-01'' ''1'' NoItem True =
     [SetTotalBuyIn (Num 10), SetTotalCashOut (Num 10), Computed [],
      SetItem ''pokerGames''
        [\<lparr>id' = ''1'', date = ''2024-01-01'',
          players = [\<lparr>name = ''A'', buyIn = ''abc'', cashOut = ''abc''\<rparr>,
                     \<lparr>name = ''B'', buyIn = ''10'', cashOut = ''10''\<rparr>],
          payments = []\<rparr>],
      RouterPush ''/'']"
  by code_simp

text \<open>
  C8. \<^verbatim>\<open>saveGame\<close> calls \<^verbatim>\<open>calculatePayments\<close>, and stores a game, only when the
  duplicate-name check has passed, every name, buy-in and cash-out is non-empty after
  trimming, and the balance check has answered true; when one of the checks fails, it
  returns without computing payments and without storing anything.
\<close>

theorem settlement_only_after_validation:
  "(Computed pays \<in> set (saveGame ps dateISO now stored setItemOk) \<or>
    SetItem key games \<in> set (saveGame ps dateISO now stored setItemOk) \<longrightarrow>
      \<not> hasDuplicateNames ps \<and>
      (\<forall>p\<in>set ps. trim (name p) \<noteq> [] \<and> trim (buyIn p) \<noteq> [] \<and> trim (cashOut p) \<noteq> []) \<and>
      checkTotalBalance ps) \<and>
   (hasDuplicateNames ps \<or>
    (\<exists>p\<in>set ps. trim (name p) = [] \<or> trim (buyIn p) = [] \<or> trim (cashOut p) = []) \<or>
    \<not> checkTotalBalance ps \<longrightarrow>
      (\<forall>e\<in>set (saveGame ps dateISO now stored setItemOk).
         (\<forall>x. e \<noteq> Computed x) \<and> (\<forall>k gs. e \<noteq> SetItem k gs)))"
proof -
  have v: "isValid ps \<longleftrightarrow>
      (\<forall>p\<in>set ps. trim (name p) \<noteq> [] \<and> trim (buyIn p) \<noteq> [] \<and> trim (cashOut p) \<noteq> [])"
    by (simp add: isValid_def list_all_iff)
  show ?thesis
    by (auto simp: saveGame_def Let_def v split: if_splits storage_read.splits)
qed


theorem settlement_only_after_validation_witness:
  "Computed [\<lparr>from' = ''B'', to' = ''A'', amount = Num 50\<rparr>] \<in>
     set (saveGame [\<lparr>name = ''A'', buyIn = ''50'', cashOut = ''100''\<rparr>,
                    \<lparr>name = ''B'', buyIn = ''100'', cashOut = ''50''\<rparr>]
            ''2024-01-01'' ''1'' NoItem True) \<and>
   \<not> hasDuplicateNames [\<lparr>name = ''A'', buyIn = ''50'', cashOut = ''100''\<rparr>,
                        \<lparr>name = ''B'', buyIn = ''100'', cashOut = ''50''\<rparr>] \<and>
   checkTotalBalance [\<lparr>name = ''A'', buyIn = ''50'', cashOut = ''100''\<rparr>,
                      \<lparr>name = ''B'', buyIn = ''100'', cashOut = ''50''\<rparr>] \<and>
   \<not> checkTotalBalance [\<lparr>name = ''A'', buyIn = ''50'', cashOut = ''100''\<rparr>,
                        \<lparr>name = ''B'', buyIn = ''100'', cashOut = ''60''\<rparr>] \<and>
   Computed [\<lparr>from' = ''B'', to' = ''A'', amount = Num 40\<rparr>] \<notin>
     set (saveGame [\<lparr>name = ''A'', buyIn = ''50'', cashOut = ''100''\<rparr>,
                    \<lparr>name = ''B'', buyIn = ''100'', cashOut = ''60''\<rparr>]
            ''2024-01-01'' ''1'' NoItem True)"
proof -
  let ?ps = "[\<lparr>name = ''A'', buyIn = ''50'', cashOut = ''100''\<rparr>,
              \<lparr>name = ''B'', buyIn = ''100'', cashOut = ''50''\<rparr>]"
  let ?qs = "[\<lparr>name = ''A'', buyIn = ''50'', cashOut = ''100''\<rparr>,
              \<lparr>name = ''B'', buyIn = ''100'', cashOut = ''60''\<rparr>]"
  let ?t = "[\<lparr>from' = ''B'', to' = ''A'', amount = Num 50\<rparr>]"
  let ?u = "[\<lparr>from' = ''B'', to' = ''A'', amount = Num 40\<rparr>]"
  have 1: "Computed ?t \<in> set (saveGame ?ps ''2024-01-01'' ''1'' NoItem True)" by code_simp
  have 2: "\<not> checkTotalBalance ?qs" by code_simp
  from 1 have 3: "\<not> hasDuplicateNames ?ps \<and> checkTotalBalance ?ps"
    using settlement_only_after_validation [of ?t ?ps "''2024-01-01''" "''1''" NoItem True]
    by blast
  from 2 have 4: "Computed ?u \<notin> set (saveGame ?qs ''2024-01-01'' ''1'' NoItem True)"
    using settlement_only_after_validation [of ?u ?qs "''2024-01-01''" "''1''" NoItem True]
    by blast
  from 1 2 3 4 show ?thesis by blast
qed

section \<open>The pointer into the winners\<close>

text \<open>
  C2, as amended. For every loser the pointer into \<^verbatim>\<open>winners\<close> starts at index 0
  and advances by one with every read until the loop for that loser ends: the indices read
  in a whole run are runs \<open>0, 1, ..., k - 1\<close>, one for each loser, each within the array.
  The pointer is set back to 0 for the next loser, whose loop works on the array the
  previous loop left, so the remaining balances of the winners carry over.
\<close>

theorem pointer_restarts_for_each_loser:
  "(\<exists>ks. length ks = length (losers ps) \<and>
         consulted (settle ps) = concat (map (\<lambda>k. [0..<k]) ks) \<and>
         (\<forall>k\<in>set ks. k \<le> length (winners ps))) \<and>
   forEachLoser (loser # rest) st =
     forEachLoser rest (whileLoop (name loser) (Math_abs (balance loser)) 0 st)"
  using forEachLoser_consulted
    [of "losers ps" "\<lparr>winnersArr = winners ps, paymentsArr = [], consulted = []\<rparr>"]
  by (simp add: settle_def)

theorem pointer_restarts_for_each_loser_witness:
  "length (losers [\<lparr>name = ''A'', buyIn = ''0'', cashOut = ''30''\<rparr>,
                   \<lparr>name = ''B'', buyIn = ''0'', cashOut = ''20''\<rparr>,
                   \<lparr>name = ''C'', buyIn = ''40'', cashOut = ''0''\<rparr>,
                   \<lparr>name = ''D'', buyIn = ''10'', cashOut = ''0''\<rparr>]) = 2 \<and>
   (\<exists>ks. length ks = 2 \<and> [0, 1, 0, 1] = concat (map (\<lambda>k. [0..<k]) ks) \<and>
         (\<forall>k\<in>set ks. k \<le> 2))"
proof -
  let ?ps = "[\<lparr>name = ''A'', buyIn = ''0'', cashOut = ''30''\<rparr>,
              \<lparr>name = ''B'', buyIn = ''0'', cashOut = ''20''\<rparr>,
              \<lparr>name = ''C'', buyIn = ''40'', cashOut = ''0''\<rparr>,
              \<lparr>name = ''D'', buyIn = ''10'', cashOut = ''0''\<rparr>]"
  have l: "length (losers ?ps) = 2" by code_simp
  have w: "length (winners ?ps) = 2" by code_simp
  have c: "consulted (settle ?ps) = [0, 1, 0, 1]" by code_simp
  from pointer_restarts_for_each_loser [of ?ps] show ?thesis
    unfolding l w c by blast
qed

text \<open>With two winners and two losers the indices read are 0, 1, 0, 1: the pointer goes back.\<close>

theorem pointer_reset_counterexample:
  "validated [\<lparr>name = ''A'', buyIn = ''0'', cashOut = ''30''\<rparr>,
              \<lparr>name = ''B'', buyIn = ''0'', cashOut = ''20''\<rparr>,
              \<lparr>name = ''C'', buyIn = ''40'', cashOut = ''0''\<rparr>,
              \<lparr>name = ''D'', buyIn = ''10'', cashOut = ''0''\<rparr>] \<and>
   consulted (settle [\<lparr>name = ''A'', buyIn = ''0'', cashOut = ''30''\<rparr>,
                      \<lparr>name = ''B'', buyIn = ''0'', cashOut = ''20''\<rparr>,
                      \<lparr>name = ''C'', buyIn = ''40'', cashOut = ''0''\<rparr>,
                      \<lparr>name = ''D'', buyIn = ''10'', cashOut = ''0''\<rparr>]) = [0, 1, 0, 1] \<and>
   \<not> sorted (consulted (settle [\<lparr>name = ''A'', buyIn = ''0'', cashOut = ''30''\<rparr>,
                      \<lparr>name = ''B'', buyIn = ''0'', cashOut = ''20''\<rparr>,
                      \<lparr>name = ''C'', buyIn = ''40'', cashOut = ''0''\<rparr>,
                      \<lparr>name = ''D'', buyIn = ''10'', cashOut = ''0''\<rparr>]))"
  by code_simp

section \<open>Amounts of the transfers\<close>

text \<open>
  C6. The test \<^verbatim>\<open>payment > 0\<close> is made before the payment is rounded: on this list,
  which passes the three checks, the loser owes 0.016 and each winner is owed 0.004, and
  the two transfers that are recorded have the amount 0.
\<close>

theorem zero_amount_transfer:
  "validated [\<lparr>name = ''W1'', buyIn = ''0'', cashOut = ''0.004''\<rparr>,
              \<lparr>name = ''W2'', buyIn = ''0'', cashOut = ''0.004''\<rparr>,
              \<lparr>name = ''W3'', buyIn = ''0'', cashOut = ''0.004''\<rparr>,
              \<lparr>name = ''W4'', buyIn = ''0'', cashOut = ''0.004''\<rparr>,
              \<lparr>name = ''L'', buyIn = ''0.016'', cashOut = ''0''\<rparr>] \<and>
   calculatePayments [\<lparr>name = ''W1'', buyIn = ''0'', cashOut = ''0.004''\<rparr>,
              \<lparr>name = ''W2'', buyIn = ''0'', cashOut = ''0.004''\<rparr>,
              \<lparr>name = ''W3'', buyIn = ''0'', cashOut = ''0.004''\<rparr>,
              \<lparr>name = ''W4'', buyIn = ''0'', cashOut = ''0.004''\<rparr>,
              \<lparr>name = ''L'', buyIn = ''0.016'', cashOut = ''0''\<rparr>] =
     [\<lparr>from' = ''L'', to' = ''W1'', amount = Num 0\<rparr>,
      \<lparr>from' = ''L'', to' = ''W2'', amount = Num 0\<rparr>]"
  by code_simp

section \<open>Conservation\<close>




section \<open>What the settlement leaves unchanged\<close>

text \<open>
  C10. On a store that holds the player entries and their array, \<^verbatim>\<open>calculatePayments\<close>
  returns, and every object that was in the store before the call is unchanged after it:
  the call only adds objects and writes arrays it has made itself. In particular the
  entries read through \<^verbatim>\<open>players\<close> are the same, with their names, buy-ins and
  cash-outs, and the payments it returns are those of the first model. The games that
  \<^verbatim>\<open>saveGame\<close> stores are the games found, followed by one game with the entries as
  they were given and the computed payments.
\<close>

theorem players_unchanged_by_settlement:
  "(readPlayers h playersRef = Some ps \<longrightarrow>
      (\<exists>paymentsRef h'. calculatePayments_h h playersRef = Some (paymentsRef, h') \<and>
         take (length h) h' = h \<and>
         readPlayers h' playersRef = Some ps \<and>
         readPayments h' paymentsRef = Some (calculatePayments ps))) \<and>
   (SetItem key games \<in> set (saveGame ps dateISO now stored setItemOk) \<longrightarrow>
      games = (case stored of Item gs \<Rightarrow> gs | _ \<Rightarrow> []) @
        [\<lparr>id' = now, date = dateISO, players = ps, payments = calculatePayments ps\<rparr>])"
proof (intro conjI impI)
  assume r: "readPlayers h playersRef = Some ps"
  from calculatePayments_h_refines [OF r] obtain paymentsRef h' where
    c: "calculatePayments_h h playersRef = Some (paymentsRef, h')" "take (length h) h' = h"
    "readPayments h' paymentsRef = Some (calculatePayments ps)" by blast
  from r c(2) have "readPlayers h' playersRef = Some ps" by (rule readPlayers_prefix)
  with c show "\<exists>paymentsRef h'. calculatePayments_h h playersRef = Some (paymentsRef, h') \<and>
         take (length h) h' = h \<and> readPlayers h' playersRef = Some ps \<and>
         readPayments h' paymentsRef = Some (calculatePayments ps)" by blast
next
  assume "SetItem key games \<in> set (saveGame ps dateISO now stored setItemOk)"
  then show "games = (case stored of Item gs \<Rightarrow> gs | _ \<Rightarrow> []) @
        [\<lparr>id' = now, date = dateISO, players = ps, payments = calculatePayments ps\<rparr>]"
    by (auto simp: saveGame_def Let_def split: if_splits storage_read.splits)
qed

theorem players_unchanged_by_settlement_witness:
  "(\<exists>paymentsRef h'.
      calculatePayments_h
        [PlayerObj \<lparr>name = ''A'', buyIn = ''50'', cashOut = ''100''\<rparr>,
         PlayerObj \<lparr>name = ''B'', buyIn = ''100'', cashOut = ''50''\<rparr>,
         ArrayObj [0, 1]] 2 = Some (paymentsRef, h') \<and>
      take (length [PlayerObj \<lparr>name = ''A'', buyIn = ''50'', cashOut = ''100''\<rparr>,
         PlayerObj \<lparr>name = ''B'', buyIn = ''100'', cashOut = ''50''\<rparr>,
         ArrayObj [0, 1]]) h' =
        [PlayerObj \<lparr>name = ''A'', buyIn = ''50'', cashOut = ''100''\<rparr>,
         PlayerObj \<lparr>name = ''B'', buyIn = ''100'', cashOut = ''50''\<rparr>,
         ArrayObj [0, 1]] \<and>
      readPlayers h' 2 = Some [\<lparr>name = ''A'', buyIn = ''50'', cashOut = ''100''\<rparr>,
                               \<lparr>name = ''B'', buyIn = ''100'', cashOut = ''50''\<rparr>] \<and>
      readPayments h' paymentsRef = Some [\<lparr>from' = ''B'', to' = ''A'', amount = Num 50\<rparr>]) \<and>
   SetItem ''pokerGames''
     [\<lparr>id' = ''1'', date = ''2024-01-01'',
       players = [\<lparr>name = ''A'', buyIn = ''50'', cashOut = ''100''\<rparr>,
                  \<lparr>name = ''B'', buyIn = ''100'', cashOut = ''50''\<rparr>],
       payments = [\<lparr>from' = ''B'', to' = ''A'', amount = Num 50\<rparr>]\<rparr>]
     \<in> set (saveGame [\<lparr>name = ''A'', buyIn = ''50'', cashOut = ''100''\<rparr>,
                       \<lparr>name = ''B'', buyIn = ''100'', cashOut = ''50''\<rparr>]
               ''2024-01-01'' ''1'' NoItem True)"
proof -
  let ?ps = "[\<lparr>name = ''A'', buyIn = ''50'', cashOut = ''100''\<rparr>,
              \<lparr>name = ''B'', buyIn = ''100'', cashOut = ''50''\<rparr>]"
  let ?h = "[PlayerObj \<lparr>name = ''A'', buyIn = ''50'', cashOut = ''100''\<rparr>,
             PlayerObj \<lparr>name = ''B'', buyIn = ''100'', cashOut = ''50''\<rparr>,
             ArrayObj [0, 1]]"
  let ?g = "[\<lparr>id' = ''1'', date = ''2024-01-01'', players = ?ps,
              payments = [\<lparr>from' = ''B'', to' = ''A'', amount = Num 50\<rparr>]\<rparr>]"
  have r: "readPlayers ?h 2 = Some ?ps" by code_simp
  have c: "calculatePayments ?ps = [\<lparr>from' = ''B'', to' = ''A'', amount = Num 50\<rparr>]" by code_simp
  have s: "SetItem ''pokerGames'' ?g \<in> set (saveGame ?ps ''2024-01-01'' ''1'' NoItem True)"
    by code_simp
  from players_unchanged_by_settlement
    [of ?h 2 ?ps "''pokerGames''" ?g "''2024-01-01''" "''1''" NoItem True] r
  have "\<exists>paymentsRef h'. calculatePayments_h ?h 2 = Some (paymentsRef, h') \<and>
      take (length ?h) h' = ?h \<and> readPlayers h' 2 = Some ?ps \<and>
      readPayments h' paymentsRef = Some (calculatePayments ?ps)" by blast
  then show ?thesis unfolding c using s by blast
qed

end
